theory Spec2Isabelle
  imports Main "HOL-Library.Multiset" "HOL-Library.Monad_Syntax" "HOL-Library.Word"
begin

section \<open>Deterministic selection (kesimo.c)\<close>

text \<open>
  The C \<^verbatim>\<open>int\<close> values stored in the arrays are only copied and compared by the
  selection code, never added or multiplied, so they are modelled as \<^typ>\<open>int\<close>.
  Indices, lengths and ranks are C \<^verbatim>\<open>int\<close>s as well (they can be \<open>-1\<close>, as
  \<open>r\<close> is for an empty window); they are modelled as \<^typ>\<open>int\<close> and converted
  with \<^const>\<open>nat\<close> where a cell is accessed. The index arithmetic of the source
  stays inside the range of a C \<^verbatim>\<open>int\<close> for every window of at most \<open>INT_MAX - 4\<close>
  cells (the largest term is \<open>n + 4\<close>), and is not reduced modulo \<open>2^32\<close> here. All
  divisions of the source have non-negative operands, where C's truncation and HOL's
  \<open>div\<close>/\<open>mod\<close> agree.
  An array is the list of its cells. A read or write outside the list is undefined
  behaviour in C; the theorems below carry the hypothesis that the window lies inside the
  array, and nothing is claimed elsewhere.
\<close>

definition INT_MAX :: int where
  "INT_MAX = 2147483647"

text \<open>\<^verbatim>\<open>trocar(&arr[a], &arr[b])\<close>: the two pointers are cells of the same array.\<close>

definition trocar :: "int list \<Rightarrow> int \<Rightarrow> int \<Rightarrow> int list" where
  "trocar arr a b =
     (let temp = arr ! nat a;
          arr1 = arr[nat a := arr ! nat b]
      in arr1[nat b := temp])"

text \<open>
  \<^verbatim>\<open>insertionSort(arr + off, n)\<close>: the pointer argument is the array together with
  the offset \<open>off\<close> of its first cell, so that the cell \<^verbatim>\<open>arr[j]\<close> of the source
  is cell \<open>off + j\<close> of the list. The inner \<^verbatim>\<open>while\<close> loop returns the array and
  the final \<open>j\<close>; its test reads \<^verbatim>\<open>arr[j]\<close> only when \<open>j \<ge> 0\<close>, and for \<open>j < 0\<close>
  the conjunction is false whatever the model reads.
\<close>

function insertionSort_while :: "int list \<Rightarrow> int \<Rightarrow> int \<Rightarrow> int \<Rightarrow> int list \<times> int" where
  "insertionSort_while arr off chave j =
     (if j \<ge> 0 \<and> arr ! nat (off + j) > chave
      then insertionSort_while (arr[nat (off + j + 1) := arr ! nat (off + j)]) off chave (j - 1)
      else (arr, j))"
  by pat_completeness auto
termination
  by (relation "measure (\<lambda>(arr, off, chave, j). nat (j + 1))") auto

declare insertionSort_while.simps [simp del]

function insertionSort_for :: "int list \<Rightarrow> int \<Rightarrow> int \<Rightarrow> int \<Rightarrow> int list" where
  "insertionSort_for arr off n i =
     (if i < n then
        let chave = arr ! nat (off + i);
            (arr1, j) = insertionSort_while arr off chave (i - 1);
            arr2 = arr1[nat (off + j + 1) := chave]
        in insertionSort_for arr2 off n (i + 1)
      else arr)"
  by pat_completeness auto
termination
  by (relation "measure (\<lambda>(arr, off, n, i). nat (n - i))") auto

declare insertionSort_for.simps [simp del]

definition insertionSort :: "int list \<Rightarrow> int \<Rightarrow> int \<Rightarrow> int list" where
  "insertionSort arr off n = insertionSort_for arr off n 1"

text \<open>
  \<^verbatim>\<open>particionar\<close>: the first loop looks for the pivot value from \<open>l\<close> and stops at
  its first occurrence, or at \<open>r + 1\<close> when there is none; the second loop is the Lomuto
  scan. The result is the returned index and the array.
\<close>

function particionar_busca :: "int list \<Rightarrow> int \<Rightarrow> int \<Rightarrow> int \<Rightarrow> int" where
  "particionar_busca arr r pivo i =
     (if i \<le> r then
        (if arr ! nat i = pivo then i else particionar_busca arr r pivo (i + 1))
      else i)"
  by pat_completeness auto
termination
  by (relation "measure (\<lambda>(arr, r, pivo, i). nat (r + 1 - i))") auto

declare particionar_busca.simps [simp del]

function particionar_for :: "int list \<Rightarrow> int \<Rightarrow> int \<Rightarrow> int \<Rightarrow> int \<Rightarrow> int list \<times> int" where
  "particionar_for arr r pivo i j =
     (if j \<le> r - 1 then
        (if arr ! nat j \<le> pivo
         then particionar_for (trocar arr i j) r pivo (i + 1) (j + 1)
         else particionar_for arr r pivo i (j + 1))
      else (arr, i))"
  by pat_completeness auto
termination
  by (relation "measure (\<lambda>(arr, r, pivo, i, j). nat (r - j))") auto

declare particionar_for.simps [simp del]

definition particionar :: "int list \<Rightarrow> int \<Rightarrow> int \<Rightarrow> int \<Rightarrow> int \<times> int list" where
  "particionar arr l r pivo =
     (let i = particionar_busca arr r pivo l;
          arr1 = trocar arr i r;
          (arr2, i2) = particionar_for arr1 r pivo l l;
          arr3 = trocar arr2 i2 r
      in (i2, arr3))"

text \<open>
  The grouping phase of \<^verbatim>\<open>kesimoMinimo\<close>: the loop over the full groups of 5, the
  trailing group, and the two together on a fresh \<^verbatim>\<open>medians\<close> array of
  \<open>(n + 4) / 5\<close> cells. The array is uninitialised in C; its cells start as 0 here and
  each is written before it is read. The result is the array, \<^verbatim>\<open>medians\<close> and the
  final \<open>i\<close>.
\<close>

function kesimoMinimo_grupos ::
  "int list \<Rightarrow> int list \<Rightarrow> int \<Rightarrow> int \<Rightarrow> int \<Rightarrow> int list \<times> int list \<times> int" where
  "kesimoMinimo_grupos arr medians l n i =
     (if i < n div 5 then
        let arr1 = insertionSort arr (l + i * 5) 5;
            medians1 = medians[nat i := arr1 ! nat (l + i * 5 + 2)]
        in kesimoMinimo_grupos arr1 medians1 l n (i + 1)
      else (arr, medians, i))"
  by pat_completeness auto
termination
  by (relation "measure (\<lambda>(arr, medians, l, n, i). nat (n div 5 - i))") auto

declare kesimoMinimo_grupos.simps [simp del]

definition kesimoMinimo_resto ::
  "int list \<Rightarrow> int list \<Rightarrow> int \<Rightarrow> int \<Rightarrow> int \<Rightarrow> int list \<times> int list \<times> int" where
  "kesimoMinimo_resto arr medians l n i =
     (if i * 5 < n then
        let resto = n mod 5;
            arr1 = insertionSort arr (l + i * 5) resto;
            medians1 = medians[nat i := arr1 ! nat (l + i * 5 + resto div 2)]
        in (arr1, medians1, i + 1)
      else (arr, medians, i))"

definition kesimoMinimo_medians :: "int list \<Rightarrow> int \<Rightarrow> int \<Rightarrow> int list \<times> int list \<times> int" where
  "kesimoMinimo_medians arr l n =
     (let medians = replicate (nat ((n + 4) div 5)) 0;
          (arr1, medians1, i) = kesimoMinimo_grupos arr medians l n 0
      in kesimoMinimo_resto arr1 medians1 l n i)"

subsection \<open>The selection routine\<close>

text \<open>Division by 5 with remainder, and the number \<open>(n + 4) / 5\<close> of groups.\<close>

lemma teto5:
  fixes n :: int
  shows "(n + 4) div 5 = (if n mod 5 = 0 then n div 5 else n div 5 + 1)"
proof -
  define q where "q = n div 5"
  define m where "m = n mod 5"
  have n: "n = m + 5 * q" and m: "0 \<le> m" "m < 5" by (simp_all add: q_def m_def)
  have "(n + 4) div 5 = ((m + 4) + 5 * q) div 5" using n by simp
  also have "\<dots> = q + (m + 4) div 5" by (rule div_mult_self2) simp
  also have "(m + 4) div 5 = (if m = 0 then 0 else 1)"
  proof (cases "m = 0")
    case True
    then show ?thesis by simp
  next
    case False
    with m have "0 \<le> m - 1" "m - 1 < 5" by simp_all
    then have "(m - 1) div 5 = 0" by (simp add: div_pos_pos_trivial)
    moreover have "(m + 4) div 5 = ((m - 1) + 5 * 1) div 5" by simp
    moreover have "\<dots> = 1 + (m - 1) div 5" by (rule div_mult_self2) simp
    ultimately show ?thesis using False by simp
  qed
  finally show ?thesis by (simp add: q_def m_def)
qed

lemma cinco:
  fixes n :: int
  obtains q m where "n div 5 = q" "n mod 5 = m" "n = 5 * q + m" "0 \<le> m" "m < 5"
    "(n + 4) div 5 = (if m = 0 then q else q + 1)"
  using teto5[of n]
  by (metis mult.commute mult_div_mod_eq pos_mod_sign pos_mod_bound zero_less_numeral)

text \<open>
  Two facts the termination of \<^verbatim>\<open>kesimoMinimo\<close> rests on: the index returned by
  \<^verbatim>\<open>particionar\<close> lies in the window whatever the pivot value is, and the grouping
  phase ends with \<open>i = (n + 4) / 5\<close>.
\<close>

lemma particionar_for_bounds:
  "particionar_for arr r pivo i j = (arr', i') \<Longrightarrow> i \<le> i' \<and> i' - i \<le> max 0 (r - j)"
proof (induction arr r pivo i j arbitrary: arr' i' rule: particionar_for.induct)
  case (1 arr r pivo i j)
  show ?case
    using "1.prems" "1.IH"
    by (subst (asm) particionar_for.simps) (fastforce split: if_splits)
qed

lemma particionar_pos:
  "particionar arr l r pivo = (pos, arr') \<Longrightarrow> l \<le> r \<Longrightarrow> l \<le> pos \<and> pos \<le> r"
  by (auto simp: particionar_def Let_def split: prod.splits dest!: particionar_for_bounds)

lemma kesimoMinimo_grupos_i:
  "kesimoMinimo_grupos arr medians l n i = (arr', medians', i') \<Longrightarrow> i' = max i (n div 5)"
proof (induction arr medians l n i arbitrary: arr' medians' i' rule: kesimoMinimo_grupos.induct)
  case (1 arr medians l n i)
  show ?case
    using "1.prems" "1.IH"
    by (subst (asm) kesimoMinimo_grupos.simps) (fastforce simp: Let_def split: if_splits)
qed

lemma kesimoMinimo_medians_i:
  "kesimoMinimo_medians arr l n = (arr', medians', i') \<Longrightarrow> 0 \<le> n \<Longrightarrow> i' = (n + 4) div 5"
  by (auto simp: kesimoMinimo_medians_def kesimoMinimo_resto_def Let_def
      split: prod.splits if_splits dest!: kesimoMinimo_grupos_i)

text \<open>
  \<^verbatim>\<open>kesimoMinimo(arr, l, r, k)\<close>: the result is the returned value and the array as
  the call leaves it. The recursive call on \<^verbatim>\<open>medians\<close> works on that local array,
  which is dropped afterwards; only its returned value is used.
\<close>

function kesimoMinimo :: "int list \<Rightarrow> int \<Rightarrow> int \<Rightarrow> int \<Rightarrow> int \<times> int list" where
  "kesimoMinimo arr l r k =
     (if k > 0 \<and> k \<le> r - l + 1 then
        let n = r - l + 1;
            (arr1, medians, i) = kesimoMinimo_medians arr l n;
            medOfMed = (if i = 1 then medians ! 0
                        else fst (kesimoMinimo medians 0 (i - 1) ((i + 1) div 2)));
            (pos, arr2) = particionar arr1 l r medOfMed
        in if pos - l = k - 1 then (arr2 ! nat pos, arr2)
           else if pos - l > k - 1 then kesimoMinimo arr2 l (pos - 1) k
           else kesimoMinimo arr2 (pos + 1) r (k - (pos - l) - 1)
      else (INT_MAX, arr))"
  by pat_completeness auto

lemma kesimoMinimo_medians_menor:
  assumes "0 < k \<and> k \<le> r - l + 1"
    and "(arr1, medians, i) = kesimoMinimo_medians arr l (r - l + 1)"
  shows "i = (r - l + 1 + 4) div 5" and "i \<noteq> 1 \<longrightarrow> (i - 1) - 0 + 1 < r - l + 1"
proof -
  show i: "i = (r - l + 1 + 4) div 5"
    using assms(1) kesimoMinimo_medians_i[OF assms(2)[symmetric]] by simp
  obtain q m where qm: "r - l + 1 = 5 * q + m" "0 \<le> m" "m < 5"
    "(r - l + 1 + 4) div 5 = (if m = 0 then q else q + 1)"
    by (rule cinco[of "r - l + 1"])
  show "i \<noteq> 1 \<longrightarrow> (i - 1) - 0 + 1 < r - l + 1"
    using assms(1) qm(1-3) unfolding i qm(4) by (auto split: if_splits)
qed

lemma kesimoMinimo_lado_menor:
  assumes "0 < k \<and> k \<le> r - l + 1"
    and "(pos, arr2) = particionar arr1 l r pivo"
  shows "(pos - 1) - l + 1 < r - l + 1" and "r - (pos + 1) + 1 < r - l + 1"
  using assms(1) particionar_pos[OF assms(2)[symmetric]] by simp_all

termination kesimoMinimo
proof (relation "measure (\<lambda>(arr, l, r, k). nat (r - l + 1))", goal_cases)
  case 1
  show ?case by simp
next
  case (2 arr l r k n x arr1 y medians i)
  then show ?case
    using kesimoMinimo_medians_menor(2)[of k r l arr1 medians i arr] by auto
next
  case (3 arr l r k n x arr1 y medians i medOfMed xe pos arr2)
  then show ?case
    using kesimoMinimo_lado_menor(1)[of k r l pos arr2 arr1 medOfMed] by auto
next
  case (4 arr l r k n x arr1 y medians i medOfMed xe pos arr2)
  then show ?case
    using kesimoMinimo_lado_menor(2)[of k r l pos arr2 arr1 medOfMed] by auto
qed

declare kesimoMinimo.simps [simp del]

subsection \<open>Windows and rearrangements\<close>

text \<open>
  \<open>segmento arr l r\<close> is the list of the values in the window \<open>arr[l..r]\<close> (empty when
  \<open>r < l\<close>). \<open>rearranjo l r arr arr'\<close> says that \<open>arr'\<close> is \<open>arr\<close> with the cells of
  the window \<open>[l, r]\<close> permuted: same length, same values with the same multiplicities,
  and the cells before \<open>l\<close> and after \<open>r\<close> as they were.
\<close>

definition segmento :: "int list \<Rightarrow> int \<Rightarrow> int \<Rightarrow> int list" where
  "segmento arr l r = take (nat (r - l + 1)) (drop (nat l) arr)"

definition rearranjo :: "int \<Rightarrow> int \<Rightarrow> int list \<Rightarrow> int list \<Rightarrow> bool" where
  "rearranjo l r arr arr' \<longleftrightarrow>
     length arr' = length arr \<and> mset arr' = mset arr \<and>
     take (nat l) arr' = take (nat l) arr \<and> drop (nat (r + 1)) arr' = drop (nat (r + 1)) arr"

subsection \<open>Insertion sort: the closed form of the loops\<close>

lemma insertionSort_while_shift:
  "m \<le> length P \<Longrightarrow>
   \<exists>m' h'. insertionSort_while (A @ take m P @ [h] @ drop m P @ R) (int (length A)) chave (int m - 1)
             = (A @ take m' P @ [h'] @ drop m' P @ R, int m' - 1)
           \<and> m' \<le> m \<and> (\<forall>p. m' \<le> p \<and> p < m \<longrightarrow> chave < P ! p)
           \<and> (0 < m' \<longrightarrow> P ! (m' - 1) \<le> chave)"
proof (induction m arbitrary: h)
  case 0
  show ?case
    by (subst insertionSort_while.simps) (rule exI[of _ 0], simp)
next
  case (Suc m)
  let ?arr = "A @ take (Suc m) P @ [h] @ drop (Suc m) P @ R"
  have m: "m < length P" using Suc.prems by simp
  have rd: "?arr ! nat (int (length A) + (int (Suc m) - 1)) = P ! m"
    using m by (simp add: nat_add_distrib nth_append)
  show ?case
  proof (cases "chave < P ! m")
    case False
    have "insertionSort_while ?arr (int (length A)) chave (int (Suc m) - 1) = (?arr, int (Suc m) - 1)"
      using False rd by (subst insertionSort_while.simps) simp
    then show ?thesis
      using False by (intro exI[of _ "Suc m"] exI[of _ h]) simp
  next
    case True
    have upd: "?arr[nat (int (length A) + (int (Suc m) - 1) + 1) := P ! m]
             = A @ take m P @ [P ! m] @ drop m P @ R"
      using m
      by (simp add: nat_add_distrib list_update_append take_Suc_conv_app_nth
          Cons_nth_drop_Suc)
    from Suc.IH[of "P ! m"] m obtain m' h' where
      IH: "insertionSort_while (A @ take m P @ [P ! m] @ drop m P @ R) (int (length A)) chave (int m - 1)
             = (A @ take m' P @ [h'] @ drop m' P @ R, int m' - 1)"
        "m' \<le> m" "\<forall>p. m' \<le> p \<and> p < m \<longrightarrow> chave < P ! p"
        "0 < m' \<longrightarrow> P ! (m' - 1) \<le> chave"
      by auto
    have "insertionSort_while ?arr (int (length A)) chave (int (Suc m) - 1)
          = (A @ take m' P @ [h'] @ drop m' P @ R, int m' - 1)"
      using True rd upd IH(1) by (subst insertionSort_while.simps) simp
    moreover have "\<forall>p. m' \<le> p \<and> p < Suc m \<longrightarrow> chave < P ! p"
      using IH(3) True by (auto simp: less_Suc_eq)
    ultimately show ?thesis
      using IH(2,4) by (intro exI[of _ m'] exI[of _ h']) simp
  qed
qed


lemma insert_sorted_split:
  fixes P :: "int list"
  assumes "sorted P" "m' \<le> length P"
    "\<forall>p. m' \<le> p \<and> p < length P \<longrightarrow> c < P ! p"
    "0 < m' \<longrightarrow> P ! (m' - 1) \<le> c"
  shows "sorted (take m' P @ [c] @ drop m' P)"
proof -
  have lo: "x \<le> c" if "x \<in> set (take m' P)" for x
  proof -
    from that obtain q where q: "q < m'" "x = P ! q"
      using assms(2) by (auto simp: in_set_conv_nth)
    then have "P ! q \<le> P ! (m' - 1)"
      using assms(1,2) by (intro sorted_nth_mono) auto
    with q assms(4) show ?thesis by auto
  qed
  have hi: "c < y" if "y \<in> set (drop m' P)" for y
  proof -
    from that obtain q where "q < length P - m'" "y = P ! (m' + q)"
      using assms(2) by (auto simp: in_set_conv_nth)
    with assms(3) show ?thesis by auto
  qed
  have "sorted (take m' P)" "sorted (drop m' P)"
    using assms(1) by (simp_all add: sorted_wrt_take sorted_wrt_drop)
  then show ?thesis
    using lo hi by (fastforce simp: sorted_append)
qed

lemma insertionSort_for_sort:
  "(U = [] \<longrightarrow> n \<le> int (length P0)) \<Longrightarrow> (U \<noteq> [] \<longrightarrow> n = int (length P0) + int (length U)) \<Longrightarrow>
   insertionSort_for (A @ sort P0 @ U @ R) (int (length A)) n (int (length P0)) = A @ sort (P0 @ U) @ R"
proof (induction U arbitrary: P0)
  case Nil
  then show ?case by (subst insertionSort_for.simps) simp
next
  case (Cons c U)
  let ?P = "sort P0"
  let ?m = "length P0"
  let ?arr = "A @ ?P @ (c # U) @ R"
  have lt: "int ?m < n" using Cons.prems by simp
  have rd: "?arr ! nat (int (length A) + int ?m) = c"
    by (simp add: nat_add_distrib nth_append)
  have shape: "?arr = A @ take ?m ?P @ [c] @ drop ?m ?P @ (U @ R)" by simp
  from insertionSort_while_shift[of ?m ?P A c "U @ R" c] obtain m' h' where
    w: "insertionSort_while ?arr (int (length A)) c (int ?m - 1)
          = (A @ take m' ?P @ [h'] @ drop m' ?P @ U @ R, int m' - 1)"
      "m' \<le> ?m" "\<forall>p. m' \<le> p \<and> p < ?m \<longrightarrow> c < ?P ! p"
      "0 < m' \<longrightarrow> ?P ! (m' - 1) \<le> c"
    by auto
  have upd: "(A @ take m' ?P @ [h'] @ drop m' ?P @ U @ R)[nat (int (length A) + (int m' - 1) + 1) := c]
           = A @ take m' ?P @ [c] @ drop m' ?P @ U @ R"
    using w(2) by (simp add: nat_add_distrib list_update_append)
  have srt: "sorted (take m' ?P @ [c] @ drop m' ?P)"
    using w(2,3,4) by (intro insert_sorted_split) auto
  have "mset (take m' ?P) + mset (drop m' ?P) = mset ?P"
    by (metis append_take_drop_id mset_append)
  then have ms: "mset (take m' ?P @ [c] @ drop m' ?P) = mset (P0 @ [c])"
    by simp
  have eq: "take m' ?P @ [c] @ drop m' ?P = sort (P0 @ [c])"
    by (rule properties_for_sort[OF ms srt, symmetric])
  have "insertionSort_for ?arr (int (length A)) n (int ?m)
      = insertionSort_for (A @ (take m' ?P @ [c] @ drop m' ?P) @ U @ R) (int (length A)) n (int ?m + 1)"
    using lt rd w(1) upd
    by (subst insertionSort_for.simps) (simp add: Let_def)
  then have step: "insertionSort_for ?arr (int (length A)) n (int ?m)
      = insertionSort_for (A @ sort (P0 @ [c]) @ U @ R) (int (length A)) n (int (length (P0 @ [c])))"
    unfolding eq by (simp add: add.commute)
  have "insertionSort_for (A @ sort (P0 @ [c]) @ U @ R) (int (length A)) n (int (length (P0 @ [c])))
      = A @ sort ((P0 @ [c]) @ U) @ R"
    using Cons.prems by (intro Cons.IH) auto
  with step show ?case by simp
qed

lemma insertionSort_sort:
  assumes "0 \<le> off" "0 \<le> n" "off + n \<le> int (length arr)"
  shows "insertionSort arr off n
       = take (nat off) arr @ sort (take (nat n) (drop (nat off) arr)) @ drop (nat (off + n)) arr"
proof (cases "n = 0")
  case True
  then show ?thesis
    by (simp add: insertionSort_def insertionSort_for.simps[of arr off 0 1])
next
  case False
  define A where "A = take (nat off) arr"
  define x where "x = arr ! nat off"
  define U where "U = take (nat n - 1) (drop (Suc (nat off)) arr)"
  define R where "R = drop (nat (off + n)) arr"
  have n: "0 < n" using False assms by simp
  have lenA: "int (length A) = off" using assms n by (simp add: A_def)
  have seg: "take (nat n) (drop (nat off) arr) = x # U"
  proof -
    have "nat off < length arr" using assms n by linarith
    then have "drop (nat off) arr = x # drop (Suc (nat off)) arr"
      unfolding x_def by (rule Cons_nth_drop_Suc[symmetric])
    moreover have "nat n = Suc (nat n - 1)" using n by simp
    ultimately show ?thesis
      unfolding U_def by (metis take_Suc_Cons)
  qed
  have dd: "drop (nat off + nat n) arr = R" using assms by (simp add: R_def nat_add_distrib)
  have "arr = A @ take (nat n) (drop (nat off) arr) @ drop (nat n) (drop (nat off) arr)"
    unfolding A_def by (simp only: append_take_drop_id)
  then have arr: "arr = A @ sort [x] @ U @ R"
    using seg dd by (simp add: add.commute)
  have lenU: "int (length U) = n - 1"
    using assms n by (simp add: U_def)
  have "insertionSort_for (A @ sort [x] @ U @ R) (int (length A)) n (int (length [x]))
        = A @ sort ([x] @ U) @ R"
    using lenU by (intro insertionSort_for_sort) auto
  then have "insertionSort_for (A @ sort [x] @ U @ R) off n 1 = A @ sort (x # U) @ R"
    using lenA by simp
  then have "insertionSort_for arr off n 1 = A @ sort (x # U) @ R"
    using arr by simp
  then show ?thesis
    by (simp add: insertionSort_def seg A_def R_def)
qed

subsection \<open>Rearrangements, swaps and the partition\<close>

lemma rearranjo_refl: "rearranjo l r arr arr"
  by (simp add: rearranjo_def)

lemma rearranjo_trans:
  "rearranjo l r a b \<Longrightarrow> rearranjo l r b c \<Longrightarrow> rearranjo l r a c"
  by (simp add: rearranjo_def)

lemma rearranjo_mono:
  assumes "rearranjo l' r' a b" "l \<le> l'" "r' \<le> r"
  shows "rearranjo l r a b"
proof -
  have "take (nat l) (take (nat l') b) = take (nat l) (take (nat l') a)"
    using assms(1) by (simp add: rearranjo_def)
  then have t: "take (nat l) b = take (nat l) a"
    using assms(2) by (simp add: min_def nat_mono)
  have "drop (nat (r + 1) - nat (r' + 1)) (drop (nat (r' + 1)) b)
      = drop (nat (r + 1) - nat (r' + 1)) (drop (nat (r' + 1)) a)"
    using assms(1) by (simp add: rearranjo_def)
  moreover have "nat (r + 1) - nat (r' + 1) + nat (r' + 1) = nat (r + 1)"
    using assms(3) by simp
  ultimately have "drop (nat (r + 1)) b = drop (nat (r + 1)) a"
    by (simp only: drop_drop)
  with t assms(1) show ?thesis by (simp add: rearranjo_def)
qed

lemma length_trocar: "length (trocar arr a b) = length arr"
  by (simp add: trocar_def Let_def)

lemma nth_trocar:
  assumes "0 \<le> a" "a < int (length arr)" "0 \<le> b" "b < int (length arr)" "0 \<le> p"
  shows "trocar arr a b ! nat p
       = (if p = b then arr ! nat a else if p = a then arr ! nat b else arr ! nat p)"
  using assms by (auto simp: trocar_def Let_def nth_list_update)

lemma rearranjo_trocar:
  assumes "l \<le> a" "a \<le> r" "l \<le> b" "b \<le> r" "0 \<le> l" "r < int (length arr)"
  shows "rearranjo l r arr (trocar arr a b)"
proof -
  have "mset (arr[nat a := arr ! nat b, nat b := arr ! nat a]) = mset arr"
    using assms by (intro mset_swap) auto
  then show ?thesis
    using assms by (simp add: rearranjo_def trocar_def Let_def nat_mono)
qed

lemma particionar_busca_presente:
  "\<exists>p. i \<le> p \<and> p \<le> r \<and> arr ! nat p = pivo \<Longrightarrow>
   i \<le> particionar_busca arr r pivo i \<and> particionar_busca arr r pivo i \<le> r
   \<and> arr ! nat (particionar_busca arr r pivo i) = pivo"
proof (induction arr r pivo i rule: particionar_busca.induct)
  case (1 arr r pivo i)
  from "1.prems" have ir: "i \<le> r" by auto
  show ?case
  proof (cases "arr ! nat i = pivo")
    case True
    then show ?thesis using ir by (subst (1 2 3) particionar_busca.simps) simp
  next
    case False
    with "1.prems" have "\<exists>p. i + 1 \<le> p \<and> p \<le> r \<and> arr ! nat p = pivo"
      by (metis add1_zle_eq order_le_less)
    from "1.IH"[OF ir False this] show ?thesis
      using ir False by (subst (1 2 3) particionar_busca.simps) simp
  qed
qed

lemma particionar_for_inv:
  assumes "particionar_for arr r pivo i j = (arr', i')"
    "0 \<le> l" "l \<le> i" "i \<le> j" "j \<le> r" "r < int (length arr)"
    "\<forall>q. l \<le> q \<and> q < i \<longrightarrow> arr ! nat q \<le> pivo"
    "\<forall>q. i \<le> q \<and> q < j \<longrightarrow> pivo < arr ! nat q"
  shows "rearranjo l (r - 1) arr arr' \<and> i \<le> i' \<and> i' \<le> r
       \<and> (\<forall>q. l \<le> q \<and> q < i' \<longrightarrow> arr' ! nat q \<le> pivo)
       \<and> (\<forall>q. i' \<le> q \<and> q < r \<longrightarrow> pivo < arr' ! nat q)"
  using assms
proof (induction arr r pivo i j arbitrary: arr' i' rule: particionar_for.induct)
  case (1 arr r pivo i j)
  show ?case
  proof (cases "j \<le> r - 1")
    case False
    with "1.prems"(5) have "j = r" by simp
    moreover have "arr' = arr" "i' = i"
      using "1.prems"(1) False by (subst (asm) particionar_for.simps, simp)+
    ultimately show ?thesis
      using "1.prems" by (simp add: rearranjo_refl)
  next
    case jr: True
    show ?thesis
    proof (cases "arr ! nat j \<le> pivo")
      case True
      let ?arr1 = "trocar arr i j"
      have rec: "particionar_for ?arr1 r pivo (i + 1) (j + 1) = (arr', i')"
        using "1.prems"(1) jr True by (subst (asm) particionar_for.simps) simp
      have nth: "?arr1 ! nat q = (if q = j then arr ! nat i else if q = i then arr ! nat j else arr ! nat q)"
        if "0 \<le> q" for q
        using "1.prems"(2-6) jr that by (intro nth_trocar) auto
      have lo: "\<forall>q. l \<le> q \<and> q < i + 1 \<longrightarrow> ?arr1 ! nat q \<le> pivo"
        using "1.prems"(2-4,7) True by (auto simp: nth)
      have hi: "\<forall>q. i + 1 \<le> q \<and> q < j + 1 \<longrightarrow> pivo < ?arr1 ! nat q"
        using "1.prems"(2-4,8) by (auto simp: nth)
      have "rearranjo l (r - 1) ?arr1 arr' \<and> i + 1 \<le> i' \<and> i' \<le> r
           \<and> (\<forall>q. l \<le> q \<and> q < i' \<longrightarrow> arr' ! nat q \<le> pivo)
           \<and> (\<forall>q. i' \<le> q \<and> q < r \<longrightarrow> pivo < arr' ! nat q)"
        using "1.prems"(2-6) jr lo hi
        by (intro "1.IH"(1)[OF jr True rec]) (auto simp: length_trocar)
      moreover have "rearranjo l (r - 1) arr ?arr1"
        using "1.prems"(2-6) jr by (intro rearranjo_trocar) auto
      ultimately show ?thesis
        by (auto intro: rearranjo_trans)
    next
      case False
      have rec: "particionar_for arr r pivo i (j + 1) = (arr', i')"
        using "1.prems"(1) jr False by (subst (asm) particionar_for.simps) simp
      have hi: "\<forall>q. i \<le> q \<and> q < j + 1 \<longrightarrow> pivo < arr ! nat q"
        using "1.prems"(8) False by (auto simp: less_le)
      show ?thesis
        using "1.prems"(2-7) jr hi
        by (intro "1.IH"(2)[OF jr False rec]) auto
    qed
  qed
qed


lemma rearranjo_nth_right:
  assumes "rearranjo l r a b" "r < p" "0 \<le> p" "p < int (length a)"
  shows "b ! nat p = a ! nat p"
proof -
  have d: "drop (nat (r + 1)) b = drop (nat (r + 1)) a" and len: "length b = length a"
    using assms(1) by (simp_all add: rearranjo_def)
  have le: "nat (r + 1) \<le> nat p" using assms(2,3) by simp
  have "drop (nat (r + 1)) b ! (nat p - nat (r + 1)) = b ! nat p"
    using le assms(4) len by (simp add: nth_drop)
  moreover have "drop (nat (r + 1)) a ! (nat p - nat (r + 1)) = a ! nat p"
    using le assms(4) by (simp add: nth_drop)
  ultimately show ?thesis using d by simp
qed

lemma rearranjo_nth_left:
  assumes "rearranjo l r a b" "p < l" "0 \<le> p"
  shows "b ! nat p = a ! nat p"
proof -
  have t: "take (nat l) b = take (nat l) a"
    using assms(1) by (simp add: rearranjo_def)
  have "nat p < nat l" using assms(2,3) by simp
  then have "take (nat l) b ! nat p = b ! nat p" "take (nat l) a ! nat p = a ! nat p"
    by simp_all
  with t show ?thesis by simp
qed

lemma particionar_post:
  assumes "particionar arr l r pivo = (pos, arr')" "0 \<le> l" "l \<le> r" "r < int (length arr)"
    "\<exists>p. l \<le> p \<and> p \<le> r \<and> arr ! nat p = pivo"
  shows "rearranjo l r arr arr' \<and> l \<le> pos \<and> pos \<le> r \<and> arr' ! nat pos = pivo
       \<and> (\<forall>q. l \<le> q \<and> q < pos \<longrightarrow> arr' ! nat q \<le> pivo)
       \<and> (\<forall>q. pos < q \<and> q \<le> r \<longrightarrow> pivo < arr' ! nat q)"
proof -
  define i0 where "i0 = particionar_busca arr r pivo l"
  define arr1 where "arr1 = trocar arr i0 r"
  obtain arr2 i2 where f: "particionar_for arr1 r pivo l l = (arr2, i2)"
    by (cases "particionar_for arr1 r pivo l l") auto
  have res: "pos = i2" "arr' = trocar arr2 i2 r"
    using assms(1) f by (auto simp: particionar_def Let_def i0_def arr1_def)
  have i0: "l \<le> i0" "i0 \<le> r" "arr ! nat i0 = pivo"
    using particionar_busca_presente[OF assms(5)] by (simp_all add: i0_def)
  have r1: "rearranjo l r arr arr1"
    unfolding arr1_def using i0 assms(2-4) by (intro rearranjo_trocar) auto
  have len1: "length arr1 = length arr" by (simp add: arr1_def length_trocar)
  have "arr1 ! nat r = arr ! nat i0"
    unfolding arr1_def using i0 assms(2-4) by (subst nth_trocar) auto
  then have piv1: "arr1 ! nat r = pivo" using i0 by simp
  have inv: "rearranjo l (r - 1) arr1 arr2 \<and> l \<le> i2 \<and> i2 \<le> r
       \<and> (\<forall>q. l \<le> q \<and> q < i2 \<longrightarrow> arr2 ! nat q \<le> pivo)
       \<and> (\<forall>q. i2 \<le> q \<and> q < r \<longrightarrow> pivo < arr2 ! nat q)"
    using assms(2-4) len1 by (intro particionar_for_inv[OF f]) auto
  then have r2: "rearranjo l (r - 1) arr1 arr2" and i2: "l \<le> i2" "i2 \<le> r"
    and lo: "\<forall>q. l \<le> q \<and> q < i2 \<longrightarrow> arr2 ! nat q \<le> pivo"
    and hi: "\<forall>q. i2 \<le> q \<and> q < r \<longrightarrow> pivo < arr2 ! nat q"
    by auto
  have len2: "length arr2 = length arr" using r2 len1 by (simp add: rearranjo_def)
  have piv2: "arr2 ! nat r = pivo"
    using rearranjo_nth_right[OF r2, of r] assms(2-4) len1 piv1 by simp
  have r3: "rearranjo l r arr2 arr'"
    unfolding res using i2 assms(2-4) len2 by (intro rearranjo_trocar) auto
  have nth: "arr' ! nat q = (if q = r then arr2 ! nat i2 else if q = i2 then arr2 ! nat r else arr2 ! nat q)"
    if "0 \<le> q" for q
    unfolding res using i2 assms(2-4) len2 that by (intro nth_trocar) auto
  have "rearranjo l r arr arr'"
    using r1 rearranjo_mono[OF r2, of l r] r3 by (auto intro: rearranjo_trans)
  moreover have "arr' ! nat pos = pivo"
    using i2 assms(2) piv2 by (simp add: nth res(1))
  moreover have "\<forall>q. l \<le> q \<and> q < pos \<longrightarrow> arr' ! nat q \<le> pivo"
    using lo i2 assms(2) by (auto simp: nth res(1))
  moreover have "\<forall>q. pos < q \<and> q \<le> r \<longrightarrow> pivo < arr' ! nat q"
    using hi i2 assms(2) by (auto simp: nth res(1))
  ultimately show ?thesis using i2 res(1) by simp
qed

lemma segmento_nth:
  assumes "0 \<le> l" "r < int (length arr)"
  shows "set (segmento arr l r) = {arr ! nat q | q. l \<le> q \<and> q \<le> r}"
proof (cases "l \<le> r")
  case False
  then show ?thesis by (auto simp: segmento_def)
next
  case True
  have len: "length (segmento arr l r) = nat (r - l + 1)"
    using assms True by (simp add: segmento_def)
  have nth: "segmento arr l r ! k = arr ! (nat l + k)" if "k < nat (r - l + 1)" for k
    using assms True that by (simp add: segmento_def)
  show ?thesis
  proof (intro set_eqI iffI)
    fix x assume "x \<in> set (segmento arr l r)"
    then obtain k where k: "k < nat (r - l + 1)" "x = arr ! (nat l + k)"
      using len nth by (auto simp: in_set_conv_nth)
    then have "x = arr ! nat (l + int k)" "l \<le> l + int k" "l + int k \<le> r"
      using assms by (auto simp: nat_add_distrib)
    then show "x \<in> {arr ! nat q | q. l \<le> q \<and> q \<le> r}" by blast
  next
    fix x assume "x \<in> {arr ! nat q | q. l \<le> q \<and> q \<le> r}"
    then obtain q where q: "l \<le> q" "q \<le> r" "x = arr ! nat q" by auto
    then have "nat (q - l) < nat (r - l + 1)" "nat l + nat (q - l) = nat q"
      using assms by auto
    then have "segmento arr l r ! nat (q - l) = x" "nat (q - l) < length (segmento arr l r)"
      using nth[of "nat (q - l)"] q len by auto
    then show "x \<in> set (segmento arr l r)" by (metis nth_mem)
  qed
qed


lemma segmento_rearranjo_right:
  assumes "rearranjo a b x y" "b < c"
  shows "segmento y c d = segmento x c d"
proof -
  have "drop (nat c - nat (b + 1)) (drop (nat (b + 1)) y)
      = drop (nat c - nat (b + 1)) (drop (nat (b + 1)) x)"
    using assms(1) by (simp add: rearranjo_def)
  moreover have "nat c - nat (b + 1) + nat (b + 1) = nat c"
    using assms(2) by simp
  ultimately have "drop (nat c) y = drop (nat c) x"
    by (simp only: drop_drop)
  then show ?thesis by (simp add: segmento_def)
qed

lemma segmento_rearranjo_left:
  assumes "rearranjo a b x y" "d < a" "0 \<le> c"
  shows "segmento y c d = segmento x c d"
proof -
  have seg: "segmento z c d = drop (nat c) (take (nat (d + 1)) z)" for z :: "int list"
  proof (cases "c \<le> d + 1")
    case True
    then have "nat (d + 1) - nat c = nat (d - c + 1)" using assms(3) by simp
    then show ?thesis by (simp add: segmento_def drop_take)
  next
    case False
    then show ?thesis by (simp add: segmento_def)
  qed
  have "take (nat (d + 1)) (take (nat a) y) = take (nat (d + 1)) (take (nat a) x)"
    using assms(1) by (simp add: rearranjo_def)
  moreover have "min (nat (d + 1)) (nat a) = nat (d + 1)" using assms(2) by simp
  ultimately have "take (nat (d + 1)) y = take (nat (d + 1)) x"
    by (simp only: take_take)
  then show ?thesis by (simp add: seg)
qed

lemma insertionSort_rearranjo:
  assumes "0 \<le> off" "0 \<le> n" "off + n \<le> int (length arr)"
  shows "rearranjo off (off + n - 1) arr (insertionSort arr off n)"
    and "segmento (insertionSort arr off n) off (off + n - 1) = sort (segmento arr off (off + n - 1))"
proof -
  let ?A = "take (nat off) arr"
  let ?S = "take (nat n) (drop (nat off) arr)"
  let ?R = "drop (nat (off + n)) arr"
  have eq: "insertionSort arr off n = ?A @ sort ?S @ ?R"
    by (rule insertionSort_sort[OF assms])
  have dd: "?R = drop (nat n) (drop (nat off) arr)"
    using assms by (simp add: nat_add_distrib add.commute)
  have arr: "arr = ?A @ ?S @ ?R"
    unfolding dd by (simp only: append_take_drop_id)
  have lenA: "length ?A = nat off" using assms by simp
  have lenS: "length ?S = nat n" using assms by simp
  have "mset (?A @ sort ?S @ ?R) = mset (?A @ ?S @ ?R)" by simp
  then have ms: "mset (insertionSort arr off n) = mset arr"
    using eq arr by simp
  have len: "length (insertionSort arr off n) = length arr"
    using ms by (rule mset_eq_length)
  have t: "take (nat off) (insertionSort arr off n) = ?A"
    unfolding eq using lenA by simp
  have "drop (nat off + nat n) (?A @ sort ?S @ ?R) = ?R"
    using lenA lenS by simp
  then have d: "drop (nat (off + n - 1 + 1)) (insertionSort arr off n) = drop (nat (off + n - 1 + 1)) arr"
    unfolding eq using assms by (simp add: nat_add_distrib)
  show "rearranjo off (off + n - 1) arr (insertionSort arr off n)"
    using len ms t d by (simp add: rearranjo_def)
  have "take (nat n) (drop (nat off) (?A @ sort ?S @ ?R)) = sort ?S"
    using lenA lenS by simp
  then show "segmento (insertionSort arr off n) off (off + n - 1) = sort (segmento arr off (off + n - 1))"
    unfolding eq by (simp add: segmento_def)
qed

lemma insertionSort_nth:
  assumes "0 \<le> off" "0 \<le> n" "off + n \<le> int (length arr)" "0 \<le> d" "d < n"
  shows "insertionSort arr off n ! nat (off + d) = sort (segmento arr off (off + n - 1)) ! nat d"
proof -
  have "length (insertionSort arr off n) = length arr"
    using insertionSort_rearranjo(1)[OF assms(1-3)] by (simp add: rearranjo_def)
  then have "segmento (insertionSort arr off n) off (off + n - 1) ! nat d
      = insertionSort arr off n ! (nat off + nat d)"
    using assms by (simp add: segmento_def)
  then show ?thesis
    using assms insertionSort_rearranjo(2)[OF assms(1-3)] by (simp add: nat_add_distrib)
qed


lemma kesimoMinimo_grupos_inv:
  assumes "kesimoMinimo_grupos arr medians l n i = (arr', medians', i')"
    "0 \<le> l" "0 \<le> i" "i \<le> n div 5" "l + n \<le> int (length arr)"
    "n div 5 \<le> int (length medians)"
  shows "i' = n div 5 \<and> length medians' = length medians
       \<and> rearranjo (l + i * 5) (l + i' * 5 - 1) arr arr'
       \<and> (\<forall>g. i \<le> g \<and> g < i' \<longrightarrow>
             segmento arr' (l + g * 5) (l + g * 5 + 4) = sort (segmento arr (l + g * 5) (l + g * 5 + 4))
           \<and> medians' ! nat g = sort (segmento arr (l + g * 5) (l + g * 5 + 4)) ! 2)
       \<and> (\<forall>g. 0 \<le> g \<and> g < i \<longrightarrow> medians' ! nat g = medians ! nat g)"
  using assms
proof (induction arr medians l n i arbitrary: arr' medians' i' rule: kesimoMinimo_grupos.induct)
  case (1 arr medians l n i)
  show ?case
  proof (cases "i < n div 5")
    case False
    then have "arr' = arr" "medians' = medians" "i' = i"
      using "1.prems"(1) by (subst (asm) kesimoMinimo_grupos.simps, simp)+
    then show ?thesis
      using False "1.prems"(4) by (auto simp: rearranjo_refl)
  next
    case lt: True
    define arr1 where "arr1 = insertionSort arr (l + i * 5) 5"
    define medians1 where "medians1 = medians[nat i := arr1 ! nat (l + i * 5 + 2)]"
    have rec: "kesimoMinimo_grupos arr1 medians1 l n (i + 1) = (arr', medians', i')"
      using "1.prems"(1) lt
      by (subst (asm) kesimoMinimo_grupos.simps) (simp add: Let_def arr1_def medians1_def)
    have b: "0 \<le> l + i * 5" "(0::int) \<le> 5" "l + i * 5 + 5 \<le> int (length arr)"
      using "1.prems"(2,3,5) lt by auto
    have r1: "rearranjo (l + i * 5) (l + i * 5 + 4) arr arr1"
      using insertionSort_rearranjo(1)[OF b] by (simp add: arr1_def ac_simps)
    have s1: "segmento arr1 (l + i * 5) (l + i * 5 + 4) = sort (segmento arr (l + i * 5) (l + i * 5 + 4))"
      using insertionSort_rearranjo(2)[OF b] by (simp add: arr1_def ac_simps)
    have n1: "arr1 ! nat (l + i * 5 + 2) = sort (segmento arr (l + i * 5) (l + i * 5 + 4)) ! 2"
      using insertionSort_nth[OF b, of 2] by (simp add: arr1_def ac_simps)
    have len1: "length arr1 = length arr" using r1 by (simp add: rearranjo_def)
    have IH: "i' = n div 5 \<and> length medians' = length medians1
       \<and> rearranjo (l + (i + 1) * 5) (l + i' * 5 - 1) arr1 arr'
       \<and> (\<forall>g. i + 1 \<le> g \<and> g < i' \<longrightarrow>
             segmento arr' (l + g * 5) (l + g * 5 + 4) = sort (segmento arr1 (l + g * 5) (l + g * 5 + 4))
           \<and> medians' ! nat g = sort (segmento arr1 (l + g * 5) (l + g * 5 + 4)) ! 2)
       \<and> (\<forall>g. 0 \<le> g \<and> g < i + 1 \<longrightarrow> medians' ! nat g = medians1 ! nat g)"
      using "1.prems"(2-6) lt len1
      by (intro "1.IH"[OF lt arr1_def medians1_def rec]) (auto simp: medians1_def)
    then have i': "i' = n div 5" and lenm: "length medians' = length medians1"
      and r2: "rearranjo (l + (i + 1) * 5) (l + i' * 5 - 1) arr1 arr'"
      and g2: "\<And>g. i + 1 \<le> g \<Longrightarrow> g < i' \<Longrightarrow>
             segmento arr' (l + g * 5) (l + g * 5 + 4) = sort (segmento arr1 (l + g * 5) (l + g * 5 + 4))
           \<and> medians' ! nat g = sort (segmento arr1 (l + g * 5) (l + g * 5 + 4)) ! 2"
      and m2: "\<And>g. 0 \<le> g \<Longrightarrow> g < i + 1 \<Longrightarrow> medians' ! nat g = medians1 ! nat g"
      by auto
    have ra: "rearranjo (l + i * 5) (l + i' * 5 - 1) arr arr'"
    proof (rule rearranjo_trans)
      show "rearranjo (l + i * 5) (l + i' * 5 - 1) arr arr1"
        using lt i' by (intro rearranjo_mono[OF r1]) auto
      show "rearranjo (l + i * 5) (l + i' * 5 - 1) arr1 arr'"
        by (intro rearranjo_mono[OF r2]) auto
    qed
    have gi: "segmento arr' (l + i * 5) (l + i * 5 + 4) = sort (segmento arr (l + i * 5) (l + i * 5 + 4))"
      using segmento_rearranjo_left[OF r2, of "l + i * 5 + 4" "l + i * 5"] b s1 by simp
    have mi: "medians' ! nat i = sort (segmento arr (l + i * 5) (l + i * 5 + 4)) ! 2"
      using m2[of i] "1.prems"(3,6) lt n1 by (simp add: medians1_def)
    have gg: "segmento arr' (l + g * 5) (l + g * 5 + 4) = sort (segmento arr (l + g * 5) (l + g * 5 + 4))
           \<and> medians' ! nat g = sort (segmento arr (l + g * 5) (l + g * 5 + 4)) ! 2"
      if "i \<le> g" "g < i'" for g
    proof (cases "g = i")
      case True
      then show ?thesis using gi mi by simp
    next
      case False
      then have g: "i + 1 \<le> g" using that by simp
      have "segmento arr1 (l + g * 5) (l + g * 5 + 4) = segmento arr (l + g * 5) (l + g * 5 + 4)"
        using g by (intro segmento_rearranjo_right[OF r1]) auto
      then show ?thesis using g2[OF g that(2)] by simp
    qed
    have mm: "medians' ! nat g = medians ! nat g" if "0 \<le> g" "g < i" for g
      using m2[of g] that by (simp add: medians1_def)
    show ?thesis
      using i' lenm ra gg mm by (simp add: medians1_def)
  qed
qed


lemma kesimoMinimo_medians_spec:
  assumes "kesimoMinimo_medians arr l n = (arr1, medians, i)"
    "0 \<le> l" "0 \<le> n" "l + n \<le> int (length arr)"
  shows "i = (n + 4) div 5 \<and> int (length medians) = i \<and> rearranjo l (l + n - 1) arr arr1
       \<and> (\<forall>g. 0 \<le> g \<and> g < n div 5 \<longrightarrow>
             segmento arr1 (l + g * 5) (l + g * 5 + 4) = sort (segmento arr (l + g * 5) (l + g * 5 + 4))
           \<and> medians ! nat g = sort (segmento arr (l + g * 5) (l + g * 5 + 4)) ! 2)
       \<and> (n mod 5 \<noteq> 0 \<longrightarrow>
             segmento arr1 (l + n div 5 * 5) (l + n - 1) = sort (segmento arr (l + n div 5 * 5) (l + n - 1))
           \<and> medians ! nat (n div 5)
               = sort (segmento arr (l + n div 5 * 5) (l + n - 1)) ! nat (n mod 5 div 2))"
proof -
  obtain q m where qm: "n div 5 = q" "n mod 5 = m" "(n + 4) div 5 = (if m = 0 then q else q + 1)"
    and n: "n = 5 * q + m" and m: "0 \<le> m" "m < 5"
    by (rule cinco[of n])
  have q: "0 \<le> q" using n m assms(3) by simp
  define med where "med = replicate (nat ((n + 4) div 5)) (0::int)"
  obtain arr0 med0 i0 where g: "kesimoMinimo_grupos arr med l n 0 = (arr0, med0, i0)"
    by (cases "kesimoMinimo_grupos arr med l n 0") auto
  have res: "kesimoMinimo_resto arr0 med0 l n i0 = (arr1, medians, i)"
    using assms(1) g by (simp add: kesimoMinimo_medians_def Let_def med_def)
  have lenmed: "int (length med) = (if m = 0 then q else q + 1)"
    using q unfolding med_def qm(3) by simp
  have pre: "(0::int) \<le> 0" "0 \<le> n div 5" "n div 5 \<le> int (length med)"
    using q lenmed unfolding qm(1) by (simp_all split: if_splits)
  have inv: "i0 = n div 5 \<and> length med0 = length med
       \<and> rearranjo (l + 0 * 5) (l + i0 * 5 - 1) arr arr0
       \<and> (\<forall>g. 0 \<le> g \<and> g < i0 \<longrightarrow>
             segmento arr0 (l + g * 5) (l + g * 5 + 4) = sort (segmento arr (l + g * 5) (l + g * 5 + 4))
           \<and> med0 ! nat g = sort (segmento arr (l + g * 5) (l + g * 5 + 4)) ! 2)
       \<and> (\<forall>g. 0 \<le> g \<and> g < 0 \<longrightarrow> med0 ! nat g = med ! nat g)"
    by (rule kesimoMinimo_grupos_inv[OF g assms(2) pre(1,2) assms(4) pre(3)])
  then have i0: "i0 = q" and len0: "length med0 = length med"
    and r0: "rearranjo l (l + q * 5 - 1) arr arr0"
    and g0: "\<And>g. 0 \<le> g \<Longrightarrow> g < q \<Longrightarrow>
             segmento arr0 (l + g * 5) (l + g * 5 + 4) = sort (segmento arr (l + g * 5) (l + g * 5 + 4))
           \<and> med0 ! nat g = sort (segmento arr (l + g * 5) (l + g * 5 + 4)) ! 2"
    unfolding qm(1) by auto
  have lenarr0: "length arr0 = length arr" using r0 by (simp add: rearranjo_def)
  have F: "i = (if m = 0 then q else q + 1) \<and> int (length medians) = i
       \<and> rearranjo l (l + n - 1) arr arr1
       \<and> (\<forall>g. 0 \<le> g \<and> g < q \<longrightarrow>
             segmento arr1 (l + g * 5) (l + g * 5 + 4) = sort (segmento arr (l + g * 5) (l + g * 5 + 4))
           \<and> medians ! nat g = sort (segmento arr (l + g * 5) (l + g * 5 + 4)) ! 2)
       \<and> (m \<noteq> 0 \<longrightarrow>
             segmento arr1 (l + q * 5) (l + n - 1) = sort (segmento arr (l + q * 5) (l + n - 1))
           \<and> medians ! nat q = sort (segmento arr (l + q * 5) (l + n - 1)) ! nat (m div 2))"
  proof (cases "m = 0")
    case True
    then have "\<not> i0 * 5 < n" using n i0 by simp
    then have "arr1 = arr0" "medians = med0" "i = i0"
      using res by (simp_all add: kesimoMinimo_resto_def)
    moreover have "rearranjo l (l + n - 1) arr arr0"
      using n True by (intro rearranjo_mono[OF r0]) auto
    ultimately show ?thesis
      using True i0 len0 lenmed g0 by simp
  next
    case False
    have lt: "i0 * 5 < n" and sum: "q * 5 + m = n" and resto: "0 < m"
      using False n m i0 by simp_all
    have arr1: "arr1 = insertionSort arr0 (l + q * 5) m"
      and meds: "medians = med0[nat q := arr1 ! nat (l + q * 5 + m div 2)]"
      and i: "i = q + 1"
      using res lt unfolding i0 by (auto simp: kesimoMinimo_resto_def Let_def qm(2))
    have b: "0 \<le> l + q * 5" "0 \<le> m" "l + q * 5 + m \<le> int (length arr0)"
      using assms(2,4) q m sum lenarr0 by auto
    have e: "l + q * 5 + m - 1 = l + n - 1" using sum by simp
    have r1: "rearranjo (l + q * 5) (l + n - 1) arr0 arr1"
      using insertionSort_rearranjo(1)[OF b] unfolding e arr1 .
    have same: "segmento arr0 (l + q * 5) (l + n - 1) = segmento arr (l + q * 5) (l + n - 1)"
      by (intro segmento_rearranjo_right[OF r0]) auto
    have s1: "segmento arr1 (l + q * 5) (l + n - 1) = sort (segmento arr (l + q * 5) (l + n - 1))"
      using insertionSort_rearranjo(2)[OF b] unfolding e arr1 same .
    have "0 \<le> m div 2" "m div 2 < m" using resto by auto
    from insertionSort_nth[OF b this]
    have n1: "arr1 ! nat (l + q * 5 + m div 2)
        = sort (segmento arr (l + q * 5) (l + n - 1)) ! nat (m div 2)"
      unfolding e arr1 same .
    have lenm: "int (length medians) = i"
      using meds len0 lenmed i False by simp
    have ra: "rearranjo l (l + n - 1) arr arr1"
    proof (rule rearranjo_trans)
      show "rearranjo l (l + n - 1) arr arr0"
        using sum resto by (intro rearranjo_mono[OF r0]) auto
      show "rearranjo l (l + n - 1) arr0 arr1"
        using q by (intro rearranjo_mono[OF r1]) auto
    qed
    have gg: "segmento arr1 (l + g * 5) (l + g * 5 + 4) = sort (segmento arr (l + g * 5) (l + g * 5 + 4))
           \<and> medians ! nat g = sort (segmento arr (l + g * 5) (l + g * 5 + 4)) ! 2"
      if "0 \<le> g" "g < q" for g
    proof -
      have "segmento arr1 (l + g * 5) (l + g * 5 + 4) = segmento arr0 (l + g * 5) (l + g * 5 + 4)"
        using that assms(2) by (intro segmento_rearranjo_left[OF r1]) auto
      moreover have "medians ! nat g = med0 ! nat g"
        using that by (simp add: meds)
      ultimately show ?thesis using g0[OF that] by simp
    qed
    have "nat q < length med0"
      using len0 lenmed False q by simp
    then have "medians ! nat q = arr1 ! nat (l + q * 5 + m div 2)"
      by (simp add: meds)
    then have last: "medians ! nat q = sort (segmento arr (l + q * 5) (l + n - 1)) ! nat (m div 2)"
      using n1 by simp
    show ?thesis
      using False i lenm ra gg s1 last by simp
  qed
  show ?thesis
    unfolding qm using F by simp
qed

subsection \<open>Selection through a partition\<close>

lemma sort_mset_cong:
  fixes xs ys :: "int list"
  shows "mset xs = mset ys \<Longrightarrow> sort xs = sort ys"
  by (metis mset_sort properties_for_sort sorted_sort)

lemma sort_particao:
  fixes L G :: "int list"
  assumes "\<forall>x\<in>set L. x \<le> p" "\<forall>x\<in>set G. p < x"
  shows "sort (L @ [p] @ G) = sort L @ [p] @ sort G"
proof (rule properties_for_sort)
  show "mset (sort L @ [p] @ sort G) = mset (L @ [p] @ G)" by simp
  show "sorted (sort L @ [p] @ sort G)"
    using assms by (fastforce simp: sorted_append)
qed

lemma segmento_length:
  assumes "0 \<le> l" "r < int (length arr)"
  shows "length (segmento arr l r) = nat (r - l + 1)"
  using assms by (simp add: segmento_def)

lemma segmento_split:
  assumes "0 \<le> l" "l \<le> pos" "pos \<le> r" "r < int (length arr)"
  shows "segmento arr l r = segmento arr l (pos - 1) @ [arr ! nat pos] @ segmento arr (pos + 1) r"
proof -
  have a: "nat (r - l + 1) = nat (pos - l) + (1 + nat (r - pos))"
    using assms by simp
  have b: "nat (pos - l) + nat l = nat pos" using assms by simp
  have c: "nat pos < length arr" using assms by simp
  have s1: "segmento arr l (pos - 1) = take (nat (pos - l)) (drop (nat l) arr)"
    by (simp add: segmento_def)
  have "nat (pos + 1) = Suc (nat pos)" using assms by simp
  then have s2: "segmento arr (pos + 1) r = take (nat (r - pos)) (drop (Suc (nat pos)) arr)"
    by (simp add: segmento_def)
  have "take (nat (r - l + 1)) (drop (nat l) arr)
      = take (nat (pos - l)) (drop (nat l) arr) @ take (1 + nat (r - pos)) (drop (nat pos) arr)"
    unfolding a take_add by (simp add: b)
  also have "drop (nat pos) arr = arr ! nat pos # drop (Suc (nat pos)) arr"
    using c by (simp add: Cons_nth_drop_Suc)
  finally have "take (nat (r - l + 1)) (drop (nat l) arr)
      = take (nat (pos - l)) (drop (nat l) arr) @ [arr ! nat pos]
        @ take (nat (r - pos)) (drop (Suc (nat pos)) arr)"
    by simp
  then show ?thesis
    unfolding s1 s2 by (simp only: segmento_def)
qed

lemma rearranjo_segmento_mset:
  assumes "rearranjo l r a b" "0 \<le> l" "l \<le> r + 1"
  shows "mset (segmento b l r) = mset (segmento a l r)"
proof -
  have dec: "take (nat l) x @ segmento x l r @ drop (nat (r + 1)) x = x" for x :: "int list"
  proof -
    have "nat (r - l + 1) + nat l = nat (r + 1)" using assms(2,3) by simp
    then have "drop (nat (r + 1)) x = drop (nat (r - l + 1)) (drop (nat l) x)"
      by simp
    then show ?thesis
      unfolding segmento_def by (simp only: append_take_drop_id)
  qed
  have ms: "mset b = mset a" and t: "take (nat l) b = take (nat l) a"
    and d: "drop (nat (r + 1)) b = drop (nat (r + 1)) a"
    using assms(1) by (simp_all add: rearranjo_def)
  have "mset (take (nat l) b @ segmento b l r @ drop (nat (r + 1)) b)
      = mset (take (nat l) a @ segmento a l r @ drop (nat (r + 1)) a)"
    unfolding dec by (rule ms)
  then show ?thesis unfolding t d by simp
qed

lemma segmento_subset:
  assumes "0 \<le> l" "r < int (length arr)" "l \<le> a" "b \<le> r"
  shows "set (segmento arr a b) \<subseteq> set (segmento arr l r)"
proof -
  have "set (segmento arr a b) = {arr ! nat q | q. a \<le> q \<and> q \<le> b}"
    using assms by (intro segmento_nth) auto
  moreover have "set (segmento arr l r) = {arr ! nat q | q. l \<le> q \<and> q \<le> r}"
    using assms by (intro segmento_nth) auto
  ultimately show ?thesis using assms(3,4) by fastforce
qed

lemma kesimoMinimo_medians_set:
  assumes "kesimoMinimo_medians arr l n = (arr1, medians, i)"
    "0 \<le> l" "0 \<le> n" "l + n \<le> int (length arr)"
  shows "set medians \<subseteq> set (segmento arr l (l + n - 1))"
proof
  fix x assume "x \<in> set medians"
  then obtain j where j: "j < length medians" "x = medians ! j"
    by (auto simp: in_set_conv_nth)
  obtain q m where qm: "n div 5 = q" "n mod 5 = m" "(n + 4) div 5 = (if m = 0 then q else q + 1)"
    and n: "n = 5 * q + m" and m: "0 \<le> m" "m < 5"
    by (rule cinco[of n])
  have q: "0 \<le> q" using n m assms(3) by simp
  note sp = kesimoMinimo_medians_spec[OF assms, unfolded qm]
  have i: "i = (if m = 0 then q else q + 1)" "int (length medians) = i" using sp by auto
  define g where "g = int j"
  have g: "0 \<le> g" "g < (if m = 0 then q else q + 1)" "x = medians ! nat g"
    using j i by (auto simp: g_def)
  have r: "l + n - 1 < int (length arr)" using assms(4) by simp
  show "x \<in> set (segmento arr l (l + n - 1))"
  proof (cases "g < q")
    case True
    let ?s = "segmento arr (l + g * 5) (l + g * 5 + 4)"
    have b: "l + g * 5 + 4 \<le> l + n - 1" using True n m by simp
    have "x = sort ?s ! 2" using sp g True by auto
    moreover have "length ?s = 5"
      using segmento_length[of "l + g * 5" "l + g * 5 + 4" arr] assms(2) g(1) b r by simp
    ultimately have "x = sort ?s ! 2 \<and> 2 < length (sort ?s)" by simp
    then have "x \<in> set (sort ?s)" using nth_mem by blast
    then have "x \<in> set ?s" by simp
    moreover have "set ?s \<subseteq> set (segmento arr l (l + n - 1))"
      using assms(2) g(1) b r by (intro segmento_subset) auto
    ultimately show ?thesis by auto
  next
    case False
    let ?s = "segmento arr (l + q * 5) (l + n - 1)"
    have ge: "g = q" and m0: "m \<noteq> 0" using False g(2) by (auto split: if_splits)
    have "x = sort ?s ! nat (m div 2)" using sp g ge m0 by auto
    moreover have "length ?s = nat m"
    proof -
      have "l + n - 1 - (l + q * 5) + 1 = m" using n by simp
      then show ?thesis
        using segmento_length[of "l + q * 5" "l + n - 1" arr] assms(2) q r by simp
    qed
    moreover have "nat (m div 2) < nat m" using m0 m by simp
    ultimately have "x = sort ?s ! nat (m div 2) \<and> nat (m div 2) < length (sort ?s)"
      by simp
    then have "x \<in> set (sort ?s)" using nth_mem by blast
    then have "x \<in> set ?s" by simp
    moreover have "set ?s \<subseteq> set (segmento arr l (l + n - 1))"
      using assms(2) q n m by (intro segmento_subset[OF _ r]) auto
    ultimately show ?thesis by auto
  qed
qed

lemma kesimoMinimo_correto:
  "0 \<le> l \<Longrightarrow> r < int (length arr) \<Longrightarrow> 0 < k \<Longrightarrow> k \<le> r - l + 1 \<Longrightarrow>
   kesimoMinimo arr l r k = (v, arr') \<Longrightarrow>
   v = sort (segmento arr l r) ! nat (k - 1) \<and> rearranjo l r arr arr'"
proof (induction arr l r k arbitrary: v arr' rule: kesimoMinimo.induct)
  case (1 arr l r k)
  note l = "1.prems"(1) and r = "1.prems"(2) and k = "1.prems"(3,4)
  have valid: "0 < k \<and> k \<le> r - l + 1" using k by simp
  define n where "n = r - l + 1"
  obtain arr1 medians i where med: "kesimoMinimo_medians arr l n = (arr1, medians, i)"
    by (cases "kesimoMinimo_medians arr l n") auto
  define medOfMed where "medOfMed = (if i = 1 then medians ! 0
                        else fst (kesimoMinimo medians 0 (i - 1) ((i + 1) div 2)))"
  obtain pos arr2 where part: "particionar arr1 l r medOfMed = (pos, arr2)"
    by (cases "particionar arr1 l r medOfMed") auto
  have unf: "kesimoMinimo arr l r k =
      (if pos - l = k - 1 then (arr2 ! nat pos, arr2)
       else if pos - l > k - 1 then kesimoMinimo arr2 l (pos - 1) k
       else kesimoMinimo arr2 (pos + 1) r (k - (pos - l) - 1))"
    using valid med part
    by (subst kesimoMinimo.simps) (simp add: Let_def n_def[symmetric] medOfMed_def[symmetric])
  have nb: "0 \<le> n" "l + n \<le> int (length arr)" "l + n - 1 = r" "1 \<le> n"
    using k r by (simp_all add: n_def)
  note sp = kesimoMinimo_medians_spec[OF med l nb(1,2), unfolded nb(3)]
  have i: "i = (n + 4) div 5" and lenm: "int (length medians) = i"
    and r1: "rearranjo l r arr arr1"
    using sp by auto
  have ipos: "1 \<le> i" using nb(4) unfolding i by linarith
  have mset_sub: "set medians \<subseteq> set (segmento arr l r)"
    using kesimoMinimo_medians_set[OF med l nb(1,2)] unfolding nb(3) .
  have len1: "length arr1 = length arr" using r1 by (simp add: rearranjo_def)
  \<comment> \<open>the pivot is one of the medians\<close>
  have piv_med: "medOfMed \<in> set medians"
  proof (cases "i = 1")
    case True
    then show ?thesis using lenm by (simp add: medOfMed_def)
  next
    case False
    obtain v1 a1 where rec: "kesimoMinimo medians 0 (i - 1) ((i + 1) div 2) = (v1, a1)"
      by (cases "kesimoMinimo medians 0 (i - 1) ((i + 1) div 2)") auto
    have kk: "0 < (i + 1) div 2" "(i + 1) div 2 \<le> i - 1 - 0 + 1"
      using ipos by linarith+
    have "v1 = sort (segmento medians 0 (i - 1)) ! nat ((i + 1) div 2 - 1) \<and> rearranjo 0 (i - 1) medians a1"
      using lenm kk
      by (intro "1.IH"(1)[OF valid n_def med[symmetric] refl refl False _ _ _ _ rec]) auto
    moreover have "segmento medians 0 (i - 1) = medians"
      using lenm by (simp add: segmento_def)
    moreover have "nat ((i + 1) div 2 - 1) < length (sort medians)"
      using lenm kk by simp
    ultimately have "v1 \<in> set (sort medians)" using nth_mem by metis
    then show ?thesis using False rec by (simp add: medOfMed_def)
  qed
  have "mset (segmento arr1 l r) = mset (segmento arr l r)"
    using k l by (intro rearranjo_segmento_mset[OF r1]) auto
  then have "set (segmento arr1 l r) = set (segmento arr l r)"
    by (rule mset_eq_setD)
  then have "medOfMed \<in> set (segmento arr1 l r)"
    using piv_med mset_sub by auto
  then have ex: "\<exists>p. l \<le> p \<and> p \<le> r \<and> arr1 ! nat p = medOfMed"
    using segmento_nth[of l r arr1] l r len1 by auto
  have lr: "l \<le> r" using k by simp
  have r1': "r < int (length arr1)" using r len1 by simp
  note pp = particionar_post[OF part l lr r1' ex]
  have r2: "rearranjo l r arr1 arr2" and pos: "l \<le> pos" "pos \<le> r"
    and piv: "arr2 ! nat pos = medOfMed"
    and lo: "\<And>q. l \<le> q \<Longrightarrow> q < pos \<Longrightarrow> arr2 ! nat q \<le> medOfMed"
    and hi: "\<And>q. pos < q \<Longrightarrow> q \<le> r \<Longrightarrow> medOfMed < arr2 ! nat q"
    using pp by auto
  have r12: "rearranjo l r arr arr2" using r1 r2 by (rule rearranjo_trans)
  have len2: "length arr2 = length arr" using r12 by (simp add: rearranjo_def)
  have r2b: "r < int (length arr2)" using r len2 by simp
  define L where "L = segmento arr2 l (pos - 1)"
  define G where "G = segmento arr2 (pos + 1) r"
  have split: "segmento arr2 l r = L @ [medOfMed] @ G"
    using segmento_split[OF l pos r2b] piv by (simp add: L_def G_def)
  have Lle: "\<forall>x\<in>set L. x \<le> medOfMed"
    using segmento_nth[of l "pos - 1" arr2] l pos r2b lo by (auto simp: L_def)
  have Ggt: "\<forall>x\<in>set G. medOfMed < x"
    using segmento_nth[of "pos + 1" r arr2] l pos r2b hi by (auto simp: G_def)
  have lenL: "length L = nat (pos - l)"
    using segmento_length[of l "pos - 1" arr2] l pos r2b by (simp add: L_def)
  have lenG: "length G = nat (r - pos)"
    using segmento_length[of "pos + 1" r arr2] l pos r2b by (simp add: G_def)
  have "mset (segmento arr2 l r) = mset (segmento arr l r)"
    using k l by (intro rearranjo_segmento_mset[OF r12]) auto
  then have "sort (segmento arr l r) = sort (segmento arr2 l r)"
    by (intro sort_mset_cong) simp
  then have srt: "sort (segmento arr l r) = sort L @ [medOfMed] @ sort G"
    using sort_particao[OF Lle Ggt] split by simp
  show ?case
  proof (cases "pos - l = k - 1")
    case True
    then have "v = medOfMed" "arr' = arr2"
      using "1.prems"(5) unf piv by simp_all
    moreover have "nat (k - 1) = length (sort L)" using True lenL by simp
    ultimately show ?thesis
      using r12 unfolding srt by (simp add: nth_append)
  next
    case ne: False
    show ?thesis
    proof (cases "k - 1 < pos - l")
      case True
      have rec: "kesimoMinimo arr2 l (pos - 1) k = (v, arr')"
        using "1.prems"(5) unf ne True by simp
      have "v = sort (segmento arr2 l (pos - 1)) ! nat (k - 1) \<and> rearranjo l (pos - 1) arr2 arr'"
        using l pos r2b k True
        by (intro "1.IH"(2)[OF valid n_def med[symmetric] refl refl medOfMed_def part[symmetric] refl ne True _ _ _ _ rec]) auto
      then have v: "v = sort L ! nat (k - 1)" and ra: "rearranjo l (pos - 1) arr2 arr'"
        by (simp_all add: L_def)
      have "nat (k - 1) < length (sort L)" using True lenL k by simp
      then have "v = sort (segmento arr l r) ! nat (k - 1)"
        unfolding srt v by (simp add: nth_append)
      moreover have "rearranjo l r arr2 arr'"
        using pos by (intro rearranjo_mono[OF ra]) auto
      ultimately show ?thesis using r12 by (auto intro: rearranjo_trans)
    next
      case False
      have rec: "kesimoMinimo arr2 (pos + 1) r (k - (pos - l) - 1) = (v, arr')"
        using "1.prems"(5) unf ne False by simp
      have "v = sort (segmento arr2 (pos + 1) r) ! nat (k - (pos - l) - 1 - 1)
          \<and> rearranjo (pos + 1) r arr2 arr'"
        using l pos r2b k ne False
        by (intro "1.IH"(3)[OF valid n_def med[symmetric] refl refl medOfMed_def part[symmetric] refl ne False _ _ _ _ rec]) auto
      then have v: "v = sort G ! nat (k - (pos - l) - 1 - 1)" and ra: "rearranjo (pos + 1) r arr2 arr'"
        by (simp_all add: G_def)
      have idx: "nat (k - 1) = length (sort L) + 1 + nat (k - (pos - l) - 1 - 1)"
        using ne False lenL pos k by simp
      have "(sort L @ [medOfMed] @ sort G) ! (length (sort L) + 1 + nat (k - (pos - l) - 1 - 1))
          = sort G ! nat (k - (pos - l) - 1 - 1)"
        by (simp add: nth_append)
      then have "v = sort (segmento arr l r) ! nat (k - 1)"
        unfolding srt v idx by simp
      moreover have "rearranjo l r arr2 arr'"
        using pos by (intro rearranjo_mono[OF ra]) auto
      ultimately show ?thesis using r12 by (auto intro: rearranjo_trans)
    qed
  qed
qed

lemma kesimoMinimo_invalido:
  assumes "\<not> (0 < k \<and> k \<le> r - l + 1)"
  shows "kesimoMinimo arr l r k = (INT_MAX, arr)"
  by (subst kesimoMinimo.simps) (simp only: assms if_False)

lemma kesimoMinimo_rearranjo:
  assumes "0 \<le> l" "r < int (length arr)" "kesimoMinimo arr l r k = (v, arr')"
  shows "rearranjo l r arr arr'"
proof (cases "0 < k \<and> k \<le> r - l + 1")
  case True
  then show ?thesis
    using kesimoMinimo_correto[OF assms(1,2) _ _ assms(3)] by simp
next
  case False
  then show ?thesis
    using assms(3) kesimoMinimo_invalido[OF False, of arr] by (simp add: rearranjo_refl)
qed

lemma kesimoMinimo_passo:
  assumes "0 < k \<and> k \<le> r - l + 1"
    and med: "kesimoMinimo_medians arr l (r - l + 1) = (arr1, medians, i)"
    and part: "particionar arr1 l r
                 (if i = 1 then medians ! 0
                  else fst (kesimoMinimo medians 0 (i - 1) ((i + 1) div 2))) = (pos, arr2)"
  shows "kesimoMinimo arr l r k =
      (if pos - l = k - 1 then (arr2 ! nat pos, arr2)
       else if pos - l > k - 1 then kesimoMinimo arr2 l (pos - 1) k
       else kesimoMinimo arr2 (pos + 1) r (k - (pos - l) - 1))"
  using assms by (subst kesimoMinimo.simps) (simp add: Let_def)

lemma kesimoMinimo_pivo_presente:
  assumes l: "0 \<le> l" and r: "r < int (length arr)" and k: "0 < k \<and> k \<le> r - l + 1"
    and med: "kesimoMinimo_medians arr l (r - l + 1) = (arr1, medians, i)"
  defines "medOfMed \<equiv> (if i = 1 then medians ! 0
                  else fst (kesimoMinimo medians 0 (i - 1) ((i + 1) div 2)))"
  shows "medOfMed \<in> set medians" and "medOfMed \<in> set (segmento arr1 l r)"
    and "rearranjo l r arr arr1"
proof -
  define n where "n = r - l + 1"
  have nb: "0 \<le> n" "l + n \<le> int (length arr)" "l + n - 1 = r" "1 \<le> n"
    using k r by (simp_all add: n_def)
  note sp = kesimoMinimo_medians_spec[OF med[folded n_def] l nb(1,2), unfolded nb(3)]
  have i: "i = (n + 4) div 5" and lenm: "int (length medians) = i"
    and r1: "rearranjo l r arr arr1"
    using sp by auto
  show "rearranjo l r arr arr1" by (rule r1)
  have ipos: "1 \<le> i" using nb(4) unfolding i by linarith
  have mset_sub: "set medians \<subseteq> set (segmento arr l r)"
    using kesimoMinimo_medians_set[OF med[folded n_def] l nb(1,2)] unfolding nb(3) .
  show piv_med: "medOfMed \<in> set medians"
  proof (cases "i = 1")
    case True
    then show ?thesis using lenm by (simp add: medOfMed_def)
  next
    case False
    obtain v1 a1 where rec: "kesimoMinimo medians 0 (i - 1) ((i + 1) div 2) = (v1, a1)"
      by (cases "kesimoMinimo medians 0 (i - 1) ((i + 1) div 2)") auto
    have kk: "0 < (i + 1) div 2" "(i + 1) div 2 \<le> i - 1 - 0 + 1"
      using ipos by linarith+
    have "v1 = sort (segmento medians 0 (i - 1)) ! nat ((i + 1) div 2 - 1) \<and> rearranjo 0 (i - 1) medians a1"
      using lenm kk by (intro kesimoMinimo_correto[OF _ _ _ _ rec]) auto
    moreover have "segmento medians 0 (i - 1) = medians"
      using lenm by (simp add: segmento_def)
    moreover have "nat ((i + 1) div 2 - 1) < length (sort medians)"
      using lenm kk by simp
    ultimately have "v1 \<in> set (sort medians)" using nth_mem by metis
    then show ?thesis using False rec by (simp add: medOfMed_def)
  qed
  have "mset (segmento arr1 l r) = mset (segmento arr l r)"
    using k l by (intro rearranjo_segmento_mset[OF r1]) auto
  then have "set (segmento arr1 l r) = set (segmento arr l r)"
    by (rule mset_eq_setD)
  then show "medOfMed \<in> set (segmento arr1 l r)"
    using piv_med mset_sub by auto
qed

lemma kesimoMinimo_rel_menor:
  assumes "kesimoMinimo_rel c x" "c = (arr', l', r', k')" "x = (arr, l, r, k)"
  shows "0 < k \<and> k \<le> r - l + 1 \<and> r' - l' + 1 < r - l + 1"
  using assms(1)
proof (cases rule: kesimoMinimo_rel.cases)
  case (1 arr0 l0 r0 k0 x xa xb y xc ya)
  then show ?thesis
    using assms(2,3) kesimoMinimo_medians_menor(2)[of k0 r0 l0 xb xc ya arr0] by auto
next
  case (2 arr0 l0 r0 k0 x xa xb y xc ya xd xe xf yb)
  then show ?thesis
    using assms(2,3) kesimoMinimo_lado_menor(1)[of k0 r0 l0 xf yb xb xd] by auto
next
  case (3 arr0 l0 r0 k0 x xa xb y xc ya xd xe xf yb)
  then show ?thesis
    using assms(2,3) kesimoMinimo_lado_menor(2)[of k0 r0 l0 xf yb xb xd] by auto
qed

lemma kesimoMinimo_dom_total: "kesimoMinimo_dom x"
proof (rule accp_wfpD)
  show "wfp kesimoMinimo_rel"
  proof (rule wfp_if_convertible_to_nat)
    fix c x :: "int list \<times> int \<times> int \<times> int"
    assume rel: "kesimoMinimo_rel c x"
    obtain arr' l' r' k' where c: "c = (arr', l', r', k')" by (cases c) auto
    obtain arr l r k where x: "x = (arr, l, r, k)" by (cases x) auto
    from kesimoMinimo_rel_menor[OF rel c x]
    show "(\<lambda>(arr, l, r, k). nat (r - l + 1)) c < (\<lambda>(arr, l, r, k). nat (r - l + 1)) x"
      by (simp add: c x)
  qed
qed

section \<open>The properties of the selection routine\<close>

text \<open>
  Claim C1. For every non-empty array and every rank \<open>k\<close> between 1 and its length,
  \<^verbatim>\<open>kesimoMinimo\<close> called on the whole array, that is on the window from 0 to the
  length minus 1, returns the \<open>k\<close>-th smallest value: the value at position \<open>k - 1\<close>
  (counting from 0) of the array sorted in ascending order.
\<close>

theorem kesimoMinimo_kesimo_menor:
  assumes "arr \<noteq> []" "1 \<le> k" "k \<le> int (length arr)"
  shows "fst (kesimoMinimo arr 0 (int (length arr) - 1) k) = sort arr ! nat (k - 1)"
proof -
  obtain v arr' where res: "kesimoMinimo arr 0 (int (length arr) - 1) k = (v, arr')"
    by (cases "kesimoMinimo arr 0 (int (length arr) - 1) k") auto
  have "v = sort (segmento arr 0 (int (length arr) - 1)) ! nat (k - 1)
        \<and> rearranjo 0 (int (length arr) - 1) arr arr'"
    using assms by (intro kesimoMinimo_correto[OF _ _ _ _ res]) auto
  moreover have "segmento arr 0 (int (length arr) - 1) = arr"
    by (simp add: segmento_def)
  ultimately show ?thesis using res by simp
qed

theorem kesimoMinimo_kesimo_menor_witness:
  "[25, 21, 98, 100, 76, 22, 43, 60, 89, 42] \<noteq> ([]::int list) \<and> (1::int) \<le> 5
   \<and> (5::int) \<le> int (length [25, 21, 98, 100, 76, 22, 43, 60, 89, 42::int])
   \<and> fst (kesimoMinimo [25, 21, 98, 100, 76, 22, 43, 60, 89, 42] 0 9 5) = 43"
  using kesimoMinimo_kesimo_menor[of "[25, 21, 98, 100, 76, 22, 43, 60, 89, 42]" 5]
  by simp

text \<open>
  Claim C2. The values stored in a window, counted with their multiplicities, are the
  same after a call as before it: for \<^verbatim>\<open>insertionSort\<close> on the \<open>n\<close> cells from
  \<open>off\<close>, for \<^verbatim>\<open>particionar\<close> on \<open>[l, r]\<close> with a pivot value that occurs in the
  window (the precondition of its contract), and for \<^verbatim>\<open>kesimoMinimo\<close> on \<open>[l, r]\<close>
  with any rank. The window lies inside the array in each case. The last part says that
  \<^verbatim>\<open>kesimoMinimo\<close> keeps the contract of \<^verbatim>\<open>particionar\<close>: the pivot it hands over
  occurs in the window.
\<close>

theorem multiconjunto_preservado:
  "(0 \<le> off \<and> 0 \<le> n \<and> off + n \<le> int (length arr) \<longrightarrow>
      mset (segmento (insertionSort arr off n) off (off + n - 1)) = mset (segmento arr off (off + n - 1)))
   \<and> (0 \<le> l \<and> r < int (length arr) \<and> pivo \<in> set (segmento arr l r) \<longrightarrow>
      mset (segmento (snd (particionar arr l r pivo)) l r) = mset (segmento arr l r))
   \<and> (0 \<le> l \<and> r < int (length arr) \<longrightarrow>
      mset (segmento (snd (kesimoMinimo arr l r k)) l r) = mset (segmento arr l r))
   \<and> (0 \<le> l \<and> r < int (length arr) \<and> 0 < k \<and> k \<le> r - l + 1 \<longrightarrow>
      (case kesimoMinimo_medians arr l (r - l + 1) of
         (arr1, medians, i) \<Rightarrow>
           (if i = 1 then medians ! 0
            else fst (kesimoMinimo medians 0 (i - 1) ((i + 1) div 2))) \<in> set (segmento arr1 l r)))"
proof (intro conjI impI)
  assume a: "0 \<le> off \<and> 0 \<le> n \<and> off + n \<le> int (length arr)"
  then have "segmento (insertionSort arr off n) off (off + n - 1) = sort (segmento arr off (off + n - 1))"
    by (intro insertionSort_rearranjo(2)) auto
  then show "mset (segmento (insertionSort arr off n) off (off + n - 1)) = mset (segmento arr off (off + n - 1))"
    by simp
next
  assume a: "0 \<le> l \<and> r < int (length arr) \<and> pivo \<in> set (segmento arr l r)"
  obtain p arr' where e: "particionar arr l r pivo = (p, arr')"
    by (cases "particionar arr l r pivo") auto
  have ex: "\<exists>q. l \<le> q \<and> q \<le> r \<and> arr ! nat q = pivo"
    using a segmento_nth[of l r arr] by auto
  then have lr: "l \<le> r" by auto
  have "rearranjo l r arr arr'"
    using particionar_post[OF e _ lr _ ex] a by simp
  then have "mset (segmento arr' l r) = mset (segmento arr l r)"
    using a lr by (intro rearranjo_segmento_mset) auto
  then show "mset (segmento (snd (particionar arr l r pivo)) l r) = mset (segmento arr l r)"
    using e by simp
next
  assume a: "0 \<le> l \<and> r < int (length arr)"
  obtain v arr' where e: "kesimoMinimo arr l r k = (v, arr')"
    by (cases "kesimoMinimo arr l r k") auto
  have ra: "rearranjo l r arr arr'"
    using a by (intro kesimoMinimo_rearranjo[OF _ _ e]) auto
  have "mset (segmento arr' l r) = mset (segmento arr l r)"
  proof (cases "l \<le> r + 1")
    case True
    then show ?thesis using a by (intro rearranjo_segmento_mset[OF ra]) auto
  next
    case False
    then show ?thesis by (simp add: segmento_def)
  qed
  then show "mset (segmento (snd (kesimoMinimo arr l r k)) l r) = mset (segmento arr l r)"
    using e by simp
next
  assume a: "0 \<le> l \<and> r < int (length arr) \<and> 0 < k \<and> k \<le> r - l + 1"
  obtain arr1 medians i where med: "kesimoMinimo_medians arr l (r - l + 1) = (arr1, medians, i)"
    by (cases "kesimoMinimo_medians arr l (r - l + 1)") auto
  have "(if i = 1 then medians ! 0
         else fst (kesimoMinimo medians 0 (i - 1) ((i + 1) div 2))) \<in> set (segmento arr1 l r)"
    using a by (intro kesimoMinimo_pivo_presente(2)[OF _ _ _ med]) auto
  then show "case kesimoMinimo_medians arr l (r - l + 1) of
         (arr1, medians, i) \<Rightarrow>
           (if i = 1 then medians ! 0
            else fst (kesimoMinimo medians 0 (i - 1) ((i + 1) div 2))) \<in> set (segmento arr1 l r)"
    using med by simp
qed

theorem multiconjunto_preservado_witness:
  "mset (segmento (insertionSort [25, 21, 98, 100, 76, 22, 43, 60, 89, 42] 5 5) 5 (5 + 5 - 1))
     = mset (segmento [25, 21, 98, 100, 76, 22, 43, 60, 89, 42] 5 (5 + 5 - 1))
   \<and> mset (segmento (snd (particionar [25, 21, 98, 100, 76, 22, 43, 60, 89, 42] 2 8 43)) 2 8)
     = mset [98, 100, 76, 22, 43, 60, 89]
   \<and> mset (segmento (snd (kesimoMinimo [25, 21, 98, 100, 76, 22, 43, 60, 89, 42] 2 8 3)) 2 8)
     = mset [98, 100, 76, 22, 43, 60, 89]
   \<and> (case kesimoMinimo_medians [25, 21, 98, 100, 76, 22, 43, 60, 89, 42] 2 (8 - 2 + 1) of
         (arr1, medians, i) \<Rightarrow>
           (if i = 1 then medians ! 0
            else fst (kesimoMinimo medians 0 (i - 1) ((i + 1) div 2))) \<in> set (segmento arr1 2 8))"
proof -
  have a: "(0::int) \<le> 5 \<and> (0::int) \<le> 5
             \<and> (5::int) + 5 \<le> int (length [25, 21, 98, 100, 76, 22, 43, 60, 89, 42::int])"
    "(0::int) \<le> 2 \<and> (8::int) < int (length [25, 21, 98, 100, 76, 22, 43, 60, 89, 42::int])
       \<and> 43 \<in> set (segmento [25, 21, 98, 100, 76, 22, 43, 60, 89, 42] 2 8)"
    "(0::int) \<le> 2 \<and> (8::int) < int (length [25, 21, 98, 100, 76, 22, 43, 60, 89, 42::int])"
    "(0::int) \<le> 2 \<and> (8::int) < int (length [25, 21, 98, 100, 76, 22, 43, 60, 89, 42::int])
       \<and> 0 < (3::int) \<and> (3::int) \<le> 8 - 2 + 1"
    by (simp_all add: segmento_def)
  have s: "segmento [25, 21, 98, 100, 76, 22, 43, 60, 89, 42] 2 8 = [98, 100, 76, 22, 43, 60, 89]"
    by (simp add: segmento_def)
  note th = multiconjunto_preservado[of 5 5 "[25, 21, 98, 100, 76, 22, 43, 60, 89, 42]" 2 8 43 3]
  note c1 = th[THEN conjunct1, THEN mp, OF a(1)]
  note c2 = th[THEN conjunct2, THEN conjunct1, THEN mp, OF a(2), unfolded s]
  note c3 = th[THEN conjunct2, THEN conjunct2, THEN conjunct1, THEN mp, OF a(3), unfolded s]
  note c4 = th[THEN conjunct2, THEN conjunct2, THEN conjunct2, THEN mp, OF a(4)]
  show ?thesis by (intro conjI c1 c2 c3 c4)
qed

text \<open>
  Claim C3, as the code has it. The claim asks for a failure result that no data value
  can be mistaken for. The code returns the value \<open>INT_MAX\<close> instead: on the one-element
  array holding \<open>INT_MAX\<close>, the valid rank 1 and the invalid rank 2 give the same result.
\<close>

theorem kesimoMinimo_sentinela_counterexample:
  "(0 < (1::int) \<and> (1::int) \<le> 0 - 0 + 1) \<and> \<not> (0 < (2::int) \<and> (2::int) \<le> 0 - 0 + 1)
   \<and> kesimoMinimo [INT_MAX] 0 0 1 = (INT_MAX, [INT_MAX])
   \<and> kesimoMinimo [INT_MAX] 0 0 2 = (INT_MAX, [INT_MAX])"
proof -
  have "kesimoMinimo [INT_MAX] 0 0 1 = (INT_MAX, [INT_MAX])" by code_simp
  moreover have "kesimoMinimo [INT_MAX] 0 0 2 = (INT_MAX, [INT_MAX])" by code_simp
  ultimately show ?thesis by simp
qed

text \<open>
  Claim C3, amended. For every rank \<open>k\<close> with \<open>k < 1\<close> or \<open>k > r - l + 1\<close>, the empty
  window included, \<^verbatim>\<open>kesimoMinimo\<close> returns the in-band value \<open>INT_MAX\<close> and leaves the
  array as it was. A call with a valid rank on a window inside the array returns one of
  the values of the window. On a window inside the array, some valid rank returns
  \<open>INT_MAX\<close> as well if and only if \<open>INT_MAX\<close> is stored in the window: the result of an
  invalid rank differs from that of every valid rank exactly when \<open>INT_MAX\<close> is not
  stored in the window.
\<close>

theorem kesimoMinimo_sentinela:
  "(\<not> (0 < k \<and> k \<le> r - l + 1) \<longrightarrow> kesimoMinimo arr l r k = (INT_MAX, arr))
   \<and> (0 \<le> l \<and> r < int (length arr) \<and> 0 < k \<and> k \<le> r - l + 1 \<longrightarrow>
        fst (kesimoMinimo arr l r k) \<in> set (segmento arr l r))
   \<and> (0 \<le> l \<and> r < int (length arr) \<longrightarrow>
        ((\<exists>k'. 0 < k' \<and> k' \<le> r - l + 1 \<and> fst (kesimoMinimo arr l r k') = INT_MAX)
         \<longleftrightarrow> INT_MAX \<in> set (segmento arr l r)))"
proof -
  have valor: "fst (kesimoMinimo arr l r j) = sort (segmento arr l r) ! nat (j - 1)
               \<and> nat (j - 1) < length (sort (segmento arr l r))"
    if a: "0 \<le> l" "r < int (length arr)" "0 < j" "j \<le> r - l + 1" for j
  proof -
    obtain v arr' where e: "kesimoMinimo arr l r j = (v, arr')"
      by (cases "kesimoMinimo arr l r j") auto
    have "v = sort (segmento arr l r) ! nat (j - 1)"
      using kesimoMinimo_correto[OF a e] by simp
    moreover have "nat (j - 1) < length (sort (segmento arr l r))"
      using a segmento_length[of l r arr] by simp
    ultimately show ?thesis using e by simp
  qed
  have dentro: "fst (kesimoMinimo arr l r j) \<in> set (segmento arr l r)"
    if a: "0 \<le> l" "r < int (length arr)" "0 < j" "j \<le> r - l + 1" for j
  proof -
    have "fst (kesimoMinimo arr l r j) \<in> set (sort (segmento arr l r))"
      using valor[OF a] nth_mem by metis
    then show ?thesis by simp
  qed
  have c1: "\<not> (0 < k \<and> k \<le> r - l + 1) \<longrightarrow> kesimoMinimo arr l r k = (INT_MAX, arr)"
    using kesimoMinimo_invalido by blast
  have c2: "0 \<le> l \<and> r < int (length arr) \<and> 0 < k \<and> k \<le> r - l + 1 \<longrightarrow>
        fst (kesimoMinimo arr l r k) \<in> set (segmento arr l r)"
    using dentro by blast
  have c3: "(\<exists>k'. 0 < k' \<and> k' \<le> r - l + 1 \<and> fst (kesimoMinimo arr l r k') = INT_MAX)
         \<longleftrightarrow> INT_MAX \<in> set (segmento arr l r)"
    if b: "0 \<le> l" "r < int (length arr)"
  proof
    assume "\<exists>k'. 0 < k' \<and> k' \<le> r - l + 1 \<and> fst (kesimoMinimo arr l r k') = INT_MAX"
    then obtain k' where k': "0 < k'" "k' \<le> r - l + 1"
      and v: "fst (kesimoMinimo arr l r k') = INT_MAX" by blast
    show "INT_MAX \<in> set (segmento arr l r)"
      using dentro[OF b k'] v by simp
  next
    assume "INT_MAX \<in> set (segmento arr l r)"
    then have "INT_MAX \<in> set (sort (segmento arr l r))" by simp
    then obtain i where i: "i < length (sort (segmento arr l r))"
      and v: "sort (segmento arr l r) ! i = INT_MAX"
      unfolding in_set_conv_nth by blast
    have len: "i < nat (r - l + 1)" using i segmento_length[OF b] by simp
    have k': "0 < int i + 1" "int i + 1 \<le> r - l + 1" using len by simp_all
    have "fst (kesimoMinimo arr l r (int i + 1)) = INT_MAX"
      using valor[OF b k'] v by simp
    with k' show "\<exists>k'. 0 < k' \<and> k' \<le> r - l + 1 \<and> fst (kesimoMinimo arr l r k') = INT_MAX"
      by blast
  qed
  show ?thesis using c1 c2 c3 by blast
qed

theorem kesimoMinimo_sentinela_witness:
  "kesimoMinimo [5] 0 0 2 = (INT_MAX, [5]) \<and> kesimoMinimo [] 0 (- 1) 1 = (INT_MAX, [])
   \<and> kesimoMinimo [5] 0 0 0 = (INT_MAX, [5])
   \<and> fst (kesimoMinimo [9, 7, 7, 7, 2] 0 4 3) \<in> set (segmento [9, 7, 7, 7, 2] 0 4)
   \<and> INT_MAX \<in> set (segmento [3, INT_MAX, 8] 0 2)
   \<and> (\<exists>k'. 0 < k' \<and> k' \<le> 2 - 0 + 1 \<and> fst (kesimoMinimo [3, INT_MAX, 8] 0 2 k') = INT_MAX)
   \<and> INT_MAX \<notin> set (segmento [9, 7, 7, 7, 2] 0 4)
   \<and> fst (kesimoMinimo [9, 7, 7, 7, 2] 0 4 3) \<noteq> INT_MAX"
proof -
  have s1: "INT_MAX \<in> set (segmento [3, INT_MAX, 8] 0 2)"
    by (simp add: segmento_def)
  have s2: "INT_MAX \<notin> set (segmento [9, 7, 7, 7, 2] 0 4)"
    by (simp add: segmento_def INT_MAX_def)
  note a = kesimoMinimo_sentinela[of 2 0 0 "[5]"]
  note b = kesimoMinimo_sentinela[of 1 "- 1" 0 "[]"]
  note c = kesimoMinimo_sentinela[of 0 0 0 "[5]"]
  note d = kesimoMinimo_sentinela[of 3 4 0 "[9, 7, 7, 7, 2]"]
  note e = kesimoMinimo_sentinela[of 1 2 0 "[3, INT_MAX, 8]"]
  have w1: "kesimoMinimo [5] 0 0 2 = (INT_MAX, [5])" using a by simp
  have w2: "kesimoMinimo [] 0 (- 1) 1 = (INT_MAX, [])" using b by simp
  have w3: "kesimoMinimo [5] 0 0 0 = (INT_MAX, [5])" using c by simp
  have w4: "fst (kesimoMinimo [9, 7, 7, 7, 2] 0 4 3) \<in> set (segmento [9, 7, 7, 7, 2] 0 4)"
    using d by simp
  have w5: "\<exists>k'. 0 < k' \<and> k' \<le> 2 - 0 + 1 \<and> fst (kesimoMinimo [3, INT_MAX, 8] 0 2 k') = INT_MAX"
    using e s1 by simp
  have "\<not> (\<exists>k'. 0 < k' \<and> k' \<le> 4 - 0 + 1 \<and> fst (kesimoMinimo [9, 7, 7, 7, 2] 0 4 k') = INT_MAX)"
    using d s2 by simp
  then have w6: "fst (kesimoMinimo [9, 7, 7, 7, 2] 0 4 3) \<noteq> INT_MAX"
    by (auto dest: spec[of _ 3])
  show ?thesis by (intro conjI s1 w5 s2 w1 w2 w3 w4 w6)
qed

text \<open>
  Claim C4. For a window \<open>[l, r]\<close> inside the array and a pivot value that occurs in
  it, \<^verbatim>\<open>particionar\<close> returns an index \<open>p\<close> of the window such that afterwards the
  cell \<open>p\<close> holds the pivot, every cell of the window before \<open>p\<close> holds a value at most
  the pivot and every cell of the window after \<open>p\<close> a value greater than the pivot; the
  array is the old one with the cells of the window rearranged.
\<close>

theorem particionar_particiona:
  assumes "0 \<le> l" "r < int (length arr)" "pivo \<in> set (segmento arr l r)"
    "particionar arr l r pivo = (p, arr')"
  shows "l \<le> p \<and> p \<le> r \<and> arr' ! nat p = pivo
       \<and> (\<forall>q. l \<le> q \<and> q < p \<longrightarrow> arr' ! nat q \<le> pivo)
       \<and> (\<forall>q. p < q \<and> q \<le> r \<longrightarrow> pivo < arr' ! nat q)
       \<and> rearranjo l r arr arr'"
proof -
  have ex: "\<exists>q. l \<le> q \<and> q \<le> r \<and> arr ! nat q = pivo"
    using assms(3) segmento_nth[OF assms(1,2)] by auto
  then have lr: "l \<le> r" by auto
  show ?thesis
    using particionar_post[OF assms(4,1) lr assms(2) ex] by simp
qed

theorem particionar_particiona_witness:
  "(0::int) \<le> 0 \<and> (9::int) < int (length [21, 25, 76, 98, 100, 22, 42, 43, 60, 89::int])
   \<and> 43 \<in> set (segmento [21, 25, 76, 98, 100, 22, 42, 43, 60, 89] 0 9)
   \<and> particionar [21, 25, 76, 98, 100, 22, 42, 43, 60, 89] 0 9 43
        = (4, [21, 25, 22, 42, 43, 76, 98, 89, 60, 100])
   \<and> [21, 25, 22, 42, 43, 76, 98, 89, 60, 100] ! nat 4 = (43::int)
   \<and> rearranjo 0 9 [21, 25, 76, 98, 100, 22, 42, 43, 60, 89] [21, 25, 22, 42, 43, 76, 98, 89, 60, 100]"
proof -
  have e: "particionar [21, 25, 76, 98, 100, 22, 42, 43, 60, 89] 0 9 43
        = (4, [21, 25, 22, 42, 43, 76, 98, 89, 60, 100])"
    by code_simp
  have a: "(0::int) \<le> 0" "(9::int) < int (length [21, 25, 76, 98, 100, 22, 42, 43, 60, 89::int])"
    "43 \<in> set (segmento [21, 25, 76, 98, 100, 22, 42, 43, 60, 89] 0 9)"
    by (simp_all add: segmento_def)
  from particionar_particiona[OF a e] a e show ?thesis by blast
qed

text \<open>
  Claim C5. Every call of \<^verbatim>\<open>kesimoMinimo\<close> with a valid rank terminates: the call lies
  in the accessible part of the call relation of the function, and every call it makes
  is on a strictly shorter window. The recursion on the medians works on
  \<open>(n + 4) / 5\<close> values, fewer than \<open>n\<close> whenever it happens (that is, when there is
  more than one median), and the index \<open>pos\<close> returned by \<^verbatim>\<open>particionar\<close>, whatever
  the pivot, leaves both \<open>[l, pos - 1]\<close> and \<open>[pos + 1, r]\<close> strictly shorter than
  \<open>[l, r]\<close>.
\<close>

theorem kesimoMinimo_termina:
  assumes "0 < k \<and> k \<le> r - l + 1"
  shows "kesimoMinimo_dom (arr, l, r, k)
     \<and> (\<forall>arr' l' r' k'. kesimoMinimo_rel (arr', l', r', k') (arr, l, r, k) \<longrightarrow>
            r' - l' + 1 < r - l + 1)
     \<and> (\<forall>arr1 medians i. kesimoMinimo_medians arr l (r - l + 1) = (arr1, medians, i) \<longrightarrow>
            i = (r - l + 1 + 4) div 5 \<and> (i \<noteq> 1 \<longrightarrow> (i - 1) - 0 + 1 < r - l + 1)
          \<and> (\<forall>pivo pos arr2. particionar arr1 l r pivo = (pos, arr2) \<longrightarrow>
                (pos - 1) - l + 1 < r - l + 1 \<and> r - (pos + 1) + 1 < r - l + 1))"
proof (intro conjI allI impI)
  show "kesimoMinimo_dom (arr, l, r, k)" by (rule kesimoMinimo_dom_total)
next
  fix arr' l' r' k'
  assume "kesimoMinimo_rel (arr', l', r', k') (arr, l, r, k)"
  then show "r' - l' + 1 < r - l + 1" using kesimoMinimo_rel_menor[OF _ refl refl] by blast
next
  fix arr1 medians i
  assume med: "kesimoMinimo_medians arr l (r - l + 1) = (arr1, medians, i)"
  show "i = (r - l + 1 + 4) div 5"
    by (rule kesimoMinimo_medians_menor(1)[OF assms med[symmetric]])
  { assume "i \<noteq> 1"
    then show "(i - 1) - 0 + 1 < r - l + 1"
      using kesimoMinimo_medians_menor(2)[OF assms med[symmetric]] by simp }
  fix pivo pos arr2
  assume part: "particionar arr1 l r pivo = (pos, arr2)"
  show "(pos - 1) - l + 1 < r - l + 1"
    by (rule kesimoMinimo_lado_menor(1)[OF assms part[symmetric]])
  show "r - (pos + 1) + 1 < r - l + 1"
    by (rule kesimoMinimo_lado_menor(2)[OF assms part[symmetric]])
qed

theorem kesimoMinimo_termina_witness:
  "(0 < (5::int) \<and> (5::int) \<le> 9 - 0 + 1)
   \<and> kesimoMinimo_dom ([25, 21, 98, 100, 76, 22, 43, 60, 89, 42], 0, 9, 5)"
  using kesimoMinimo_termina[of 5 9 0 "[25, 21, 98, 100, 76, 22, 43, 60, 89, 42]"]
  by simp

text \<open>
  Claim C6. In a call with a valid rank on a window of \<open>n = r - l + 1\<close> cells inside
  the array, the grouping phase yields \<open>g = (n + 4) / 5\<close> medians: for each full group
  of 5 consecutive cells, the value at offset 2 of the sorted group; for a trailing group
  of \<open>s = n mod 5\<close> cells (1 to 4), the value at offset \<open>s / 2\<close> of the sorted group.
  The groups are left sorted in the array. The pivot handed to \<^verbatim>\<open>particionar\<close> is the
  single median when \<open>g = 1\<close>, and otherwise the result of \<^verbatim>\<open>kesimoMinimo\<close> on the
  medians over \<open>[0, g - 1]\<close> with rank \<open>(g + 1) / 2\<close>.
\<close>

theorem kesimoMinimo_pivo:
  assumes "0 \<le> l" "r < int (length arr)" "0 < k \<and> k \<le> r - l + 1"
    "kesimoMinimo_medians arr l (r - l + 1) = (arr1, medians, g)"
  shows "g = (r - l + 1 + 4) div 5 \<and> int (length medians) = g
     \<and> (\<forall>q. 0 \<le> q \<and> q < (r - l + 1) div 5 \<longrightarrow>
            segmento arr1 (l + q * 5) (l + q * 5 + 4) = sort (segmento arr (l + q * 5) (l + q * 5 + 4))
          \<and> medians ! nat q = sort (segmento arr (l + q * 5) (l + q * 5 + 4)) ! 2)
     \<and> ((r - l + 1) mod 5 \<noteq> 0 \<longrightarrow>
            segmento arr1 (l + (r - l + 1) div 5 * 5) r
              = sort (segmento arr (l + (r - l + 1) div 5 * 5) r)
          \<and> medians ! nat ((r - l + 1) div 5)
              = sort (segmento arr (l + (r - l + 1) div 5 * 5) r) ! nat ((r - l + 1) mod 5 div 2))
     \<and> kesimoMinimo arr l r k =
         (let pivo = (if g = 1 then medians ! 0
                      else fst (kesimoMinimo medians 0 (g - 1) ((g + 1) div 2)));
              (pos, arr2) = particionar arr1 l r pivo
          in if pos - l = k - 1 then (arr2 ! nat pos, arr2)
             else if pos - l > k - 1 then kesimoMinimo arr2 l (pos - 1) k
             else kesimoMinimo arr2 (pos + 1) r (k - (pos - l) - 1))"
proof -
  have nb: "0 \<le> r - l + 1" "l + (r - l + 1) \<le> int (length arr)" "l + (r - l + 1) - 1 = r"
    using assms(2,3) by simp_all
  note sp = kesimoMinimo_medians_spec[OF assms(4,1) nb(1,2), unfolded nb(3)]
  have "kesimoMinimo arr l r k =
         (let pivo = (if g = 1 then medians ! 0
                      else fst (kesimoMinimo medians 0 (g - 1) ((g + 1) div 2)));
              (pos, arr2) = particionar arr1 l r pivo
          in if pos - l = k - 1 then (arr2 ! nat pos, arr2)
             else if pos - l > k - 1 then kesimoMinimo arr2 l (pos - 1) k
             else kesimoMinimo arr2 (pos + 1) r (k - (pos - l) - 1))"
    using assms(3,4) by (subst kesimoMinimo.simps) (simp add: Let_def)
  with sp show ?thesis by blast
qed

theorem kesimoMinimo_pivo_witness:
  "(0::int) \<le> 0 \<and> (12::int) < int (length [13, 2, 7, 9, 1, 12, 5, 3, 8, 10, 11, 4, 6::int])
   \<and> (0 < (7::int) \<and> (7::int) \<le> 12 - 0 + 1)
   \<and> kesimoMinimo_medians [13, 2, 7, 9, 1, 12, 5, 3, 8, 10, 11, 4, 6] 0 (12 - 0 + 1)
        = ([1, 2, 7, 9, 13, 3, 5, 8, 10, 12, 4, 6, 11], [7, 8, 6], 3)
   \<and> (3::int) = (12 - 0 + 1 + 4) div 5
   \<and> [7, 8, 6] ! nat 0 = sort (segmento [13, 2, 7, 9, 1, 12, 5, 3, 8, 10, 11, 4, 6] (0 + 0 * 5) (0 + 0 * 5 + 4)) ! 2
   \<and> [7, 8, 6] ! nat 1 = sort (segmento [13, 2, 7, 9, 1, 12, 5, 3, 8, 10, 11, 4, 6] (0 + 1 * 5) (0 + 1 * 5 + 4)) ! 2
   \<and> [7, 8, 6] ! nat ((12 - 0 + 1) div 5)
        = sort (segmento [13, 2, 7, 9, 1, 12, 5, 3, 8, 10, 11, 4, 6] (0 + (12 - 0 + 1) div 5 * 5) 12)
            ! nat ((12 - 0 + 1) mod 5 div 2)"
proof -
  have e: "kesimoMinimo_medians [13, 2, 7, 9, 1, 12, 5, 3, 8, 10, 11, 4, 6] 0 (12 - 0 + 1)
        = ([1, 2, 7, 9, 13, 3, 5, 8, 10, 12, 4, 6, 11], [7, 8, 6], 3)"
    by code_simp
  have a: "(0::int) \<le> 0" "(12::int) < int (length [13, 2, 7, 9, 1, 12, 5, 3, 8, 10, 11, 4, 6::int])"
    "0 < (7::int) \<and> (7::int) \<le> 12 - 0 + 1"
    by simp_all
  note th = kesimoMinimo_pivo[OF a e]
  note cheios = th[THEN conjunct2, THEN conjunct2, THEN conjunct1, rule_format]
  note resto = th[THEN conjunct2, THEN conjunct2, THEN conjunct2, THEN conjunct1, rule_format]
  have "(3::int) = (12 - 0 + 1 + 4) div 5" using th by blast
  moreover have "[7, 8, 6] ! nat 0 = sort (segmento [13, 2, 7, 9, 1, 12, 5, 3, 8, 10, 11, 4, 6] (0 + 0 * 5) (0 + 0 * 5 + 4)) ! 2"
    using cheios[of 0] by simp
  moreover have "[7, 8, 6] ! nat 1 = sort (segmento [13, 2, 7, 9, 1, 12, 5, 3, 8, 10, 11, 4, 6] (0 + 1 * 5) (0 + 1 * 5 + 4)) ! 2"
    using cheios[of 1] by simp
  moreover have "[7, 8, 6] ! nat ((12 - 0 + 1) div 5)
        = sort (segmento [13, 2, 7, 9, 1, 12, 5, 3, 8, 10, 11, 4, 6] (0 + (12 - 0 + 1) div 5 * 5) 12)
            ! nat ((12 - 0 + 1) mod 5 div 2)"
    using resto by simp
  ultimately show ?thesis using a e by blast
qed

text \<open>
  Claim C7. In a call with a valid rank on a window inside the array, let \<open>pos\<close> be the
  index returned by \<^verbatim>\<open>particionar\<close> for the pivot, and \<open>pos - l + 1\<close> the rank of the
  pivot. If that rank is \<open>k\<close> the call returns the pivot value; if it is greater the call
  returns what \<^verbatim>\<open>kesimoMinimo\<close> returns on \<open>[l, pos - 1]\<close> with the same \<open>k\<close>;
  otherwise what it returns on \<open>[pos + 1, r]\<close> with rank \<open>k\<close> minus the rank of the pivot.
\<close>

theorem kesimoMinimo_decide_lado:
  assumes "0 \<le> l" "r < int (length arr)" "0 < k \<and> k \<le> r - l + 1"
    "kesimoMinimo_medians arr l (r - l + 1) = (arr1, medians, i)"
    "pivo = (if i = 1 then medians ! 0 else fst (kesimoMinimo medians 0 (i - 1) ((i + 1) div 2)))"
    "particionar arr1 l r pivo = (pos, arr2)"
  shows "(pos - l + 1 = k \<longrightarrow> kesimoMinimo arr l r k = (pivo, arr2))
       \<and> (pos - l + 1 > k \<longrightarrow> kesimoMinimo arr l r k = kesimoMinimo arr2 l (pos - 1) k)
       \<and> (pos - l + 1 < k \<longrightarrow>
            kesimoMinimo arr l r k = kesimoMinimo arr2 (pos + 1) r (k - (pos - l + 1)))"
proof -
  note passo = kesimoMinimo_passo[OF assms(3,4) assms(6)[unfolded assms(5)]]
  have pres: "pivo \<in> set (segmento arr1 l r)" and r1: "rearranjo l r arr arr1"
    using kesimoMinimo_pivo_presente(2,3)[OF assms(1-4)] assms(5) by simp_all
  have len1: "r < int (length arr1)" using r1 assms(2) by (simp add: rearranjo_def)
  have "arr2 ! nat pos = pivo"
    using particionar_post[OF assms(6,1) _ len1] pres assms(3) segmento_nth[OF assms(1) len1]
    by auto
  then show ?thesis
    unfolding passo by (auto simp: diff_diff_eq)
qed

theorem kesimoMinimo_decide_lado_witness:
  "kesimoMinimo [25, 21, 98, 100, 76, 22, 43, 60, 89, 42] 0 9 5
      = (43, [21, 25, 22, 42, 43, 76, 98, 89, 60, 100])
   \<and> kesimoMinimo [25, 21, 98, 100, 76, 22, 43, 60, 89, 42] 0 9 2
      = kesimoMinimo [21, 25, 22, 42, 43, 76, 98, 89, 60, 100] 0 (4 - 1) 2
   \<and> kesimoMinimo [25, 21, 98, 100, 76, 22, 43, 60, 89, 42] 0 9 8
      = kesimoMinimo [21, 25, 22, 42, 43, 76, 98, 89, 60, 100] (4 + 1) 9 (8 - (4 - 0 + 1))"
proof -
  have med: "kesimoMinimo_medians [25, 21, 98, 100, 76, 22, 43, 60, 89, 42] 0 (9 - 0 + 1)
        = ([21, 25, 76, 98, 100, 22, 42, 43, 60, 89], [76, 43], 2)"
    by code_simp
  have piv: "(43::int) = (if (2::int) = 1 then [76, 43] ! 0
                   else fst (kesimoMinimo [76, 43] 0 (2 - 1) ((2 + 1) div 2)))"
    by code_simp
  have part: "particionar [21, 25, 76, 98, 100, 22, 42, 43, 60, 89] 0 9 43
        = (4, [21, 25, 22, 42, 43, 76, 98, 89, 60, 100])"
    by code_simp
  have a: "(0::int) \<le> 0" "(9::int) < int (length [25, 21, 98, 100, 76, 22, 43, 60, 89, 42::int])"
    by simp_all
  have k5: "0 < (5::int) \<and> (5::int) \<le> 9 - 0 + 1" and k2: "0 < (2::int) \<and> (2::int) \<le> 9 - 0 + 1"
    and k8: "0 < (8::int) \<and> (8::int) \<le> 9 - 0 + 1"
    by simp_all
  have "kesimoMinimo [25, 21, 98, 100, 76, 22, 43, 60, 89, 42] 0 9 5
      = (43, [21, 25, 22, 42, 43, 76, 98, 89, 60, 100])"
    using kesimoMinimo_decide_lado[OF a k5 med piv part] by simp
  moreover have "kesimoMinimo [25, 21, 98, 100, 76, 22, 43, 60, 89, 42] 0 9 2
      = kesimoMinimo [21, 25, 22, 42, 43, 76, 98, 89, 60, 100] 0 (4 - 1) 2"
    using kesimoMinimo_decide_lado[OF a k2 med piv part] by simp
  moreover have "kesimoMinimo [25, 21, 98, 100, 76, 22, 43, 60, 89, 42] 0 9 8
      = kesimoMinimo [21, 25, 22, 42, 43, 76, 98, 89, 60, 100] (4 + 1) 9 (8 - (4 - 0 + 1))"
    using kesimoMinimo_decide_lado[OF a k8 med piv part] by simp
  ultimately show ?thesis by blast
qed

text \<open>
  Claim C8. For every \<open>m \<ge> 0\<close>, not only up to 5, \<^verbatim>\<open>insertionSort\<close> on the \<open>m\<close> cells
  from \<open>off\<close> (inside the array) leaves them in non-decreasing order: they hold the
  sorted list of the values they held, and the array keeps its length.
\<close>

theorem insertionSort_ordena:
  assumes "0 \<le> off" "0 \<le> m" "off + m \<le> int (length arr)"
  shows "sorted (segmento (insertionSort arr off m) off (off + m - 1))
       \<and> segmento (insertionSort arr off m) off (off + m - 1) = sort (segmento arr off (off + m - 1))
       \<and> length (insertionSort arr off m) = length arr"
proof -
  have "segmento (insertionSort arr off m) off (off + m - 1) = sort (segmento arr off (off + m - 1))"
    by (rule insertionSort_rearranjo(2)[OF assms])
  moreover have "length (insertionSort arr off m) = length arr"
    using insertionSort_rearranjo(1)[OF assms] by (simp add: rearranjo_def)
  ultimately show ?thesis by simp
qed

theorem insertionSort_ordena_witness:
  "(0::int) \<le> 1 \<and> (0::int) \<le> 7 \<and> (1::int) + 7 \<le> int (length [9, 4, 8, 2, 7, 1, 6, 3::int])
   \<and> sorted (segmento (insertionSort [9, 4, 8, 2, 7, 1, 6, 3] 1 7) 1 (1 + 7 - 1))
   \<and> segmento (insertionSort [9, 4, 8, 2, 7, 1, 6, 3] 1 7) 1 (1 + 7 - 1) = [1, 2, 3, 4, 6, 7, 8]"
  using insertionSort_ordena[of 1 7 "[9, 4, 8, 2, 7, 1, 6, 3]"]
  by (simp add: segmento_def)

text \<open>
  Claim C9. For every call of \<^verbatim>\<open>kesimoMinimo\<close> on a window \<open>[l, r]\<close> inside the array,
  with a valid or an invalid rank, the array keeps its length and every cell before \<open>l\<close>
  or after \<open>r\<close> holds the value it held before the call.
\<close>

theorem kesimoMinimo_fora_da_janela:
  assumes "0 \<le> l" "r < int (length arr)" "kesimoMinimo arr l r k = (v, arr')"
  shows "length arr' = length arr
       \<and> take (nat l) arr' = take (nat l) arr
       \<and> drop (nat (r + 1)) arr' = drop (nat (r + 1)) arr
       \<and> (\<forall>p. 0 \<le> p \<and> p < int (length arr) \<and> (p < l \<or> r < p) \<longrightarrow> arr' ! nat p = arr ! nat p)"
proof -
  have ra: "rearranjo l r arr arr'"
    by (rule kesimoMinimo_rearranjo[OF assms])
  have "arr' ! nat p = arr ! nat p" if "0 \<le> p" "p < int (length arr)" "p < l \<or> r < p" for p
    using that rearranjo_nth_left[OF ra, of p] rearranjo_nth_right[OF ra, of p] by auto
  then show ?thesis
    using ra by (simp add: rearranjo_def)
qed

theorem kesimoMinimo_fora_da_janela_witness:
  "(0::int) \<le> 2 \<and> (8::int) < int (length [25, 21, 98, 100, 76, 22, 43, 60, 89, 42::int])
   \<and> kesimoMinimo [25, 21, 98, 100, 76, 22, 43, 60, 89, 42] 2 8 3
        = (60, [25, 21, 22, 43, 60, 76, 100, 89, 98, 42])
   \<and> take (nat 2) [25, 21, 22, 43, 60, 76, 100, 89, 98, 42::int]
        = take (nat 2) [25, 21, 98, 100, 76, 22, 43, 60, 89, 42]
   \<and> drop (nat (8 + 1)) [25, 21, 22, 43, 60, 76, 100, 89, 98, 42::int]
        = drop (nat (8 + 1)) [25, 21, 98, 100, 76, 22, 43, 60, 89, 42]"
proof -
  have e: "kesimoMinimo [25, 21, 98, 100, 76, 22, 43, 60, 89, 42] 2 8 3
        = (60, [25, 21, 22, 43, 60, 76, 100, 89, 98, 42])"
    by code_simp
  have a: "(0::int) \<le> 2" "(8::int) < int (length [25, 21, 98, 100, 76, 22, 43, 60, 89, 42::int])"
    by simp_all
  from kesimoMinimo_fora_da_janela[OF a e] a e show ?thesis by simp
qed

section \<open>Matrix multiplication by Strassen's algorithm\<close>

text \<open>
  An \<^verbatim>\<open>int**\<close> matrix is the list of its rows, each the list of its cells. The
  dimension \<open>n\<close> is a natural number. The cells are added, subtracted and multiplied,
  so their type is left open: any commutative ring. The integers are one instance (the
  arithmetic of the source where nothing overflows) and the 32-bit words another
  (arithmetic that wraps around, which ISO C leaves undefined for \<^verbatim>\<open>int\<close> and
  two's-complement machines perform).

  A \<^verbatim>\<open>for\<close> loop counting from \<open>i\<close> up to \<open>n\<close> is \<open>para i n corpo\<close>, with the body a
  function of the counter and the state. \<open>escrever M i j v\<close> is the assignment
  \<^verbatim>\<open>M[i][j] = v\<close>. \<^verbatim>\<open>liberarMatriz\<close> only releases memory and changes no value; it
  has no counterpart here.
\<close>

type_synonym 'a matriz = "'a list list"

definition alocarMatriz :: "nat \<Rightarrow> 'a::zero matriz" where
  "alocarMatriz n = replicate n (replicate n 0)"

function para :: "nat \<Rightarrow> nat \<Rightarrow> (nat \<Rightarrow> 's \<Rightarrow> 's) \<Rightarrow> 's \<Rightarrow> 's" where
  "para i n corpo s = (if i < n then para (i + 1) n corpo (corpo i s) else s)"
  by pat_completeness auto
termination
  by (relation "measure (\<lambda>(i, n, corpo, s). n - i)") auto

declare para.simps [simp del]

definition escrever :: "'a matriz \<Rightarrow> nat \<Rightarrow> nat \<Rightarrow> 'a \<Rightarrow> 'a matriz" where
  "escrever M i j v = M[i := (M ! i)[j := v]]"

text \<open>
  \<^verbatim>\<open>somarMatrizes\<close> and \<^verbatim>\<open>subtrairMatrizes\<close> receive three pointers, and the source
  calls them both with three distinct matrices and with the destination as first operand
  (\<^verbatim>\<open>subtrairMatrizes(novo_n, C11, P2, C11)\<close>). They are therefore modelled on a store,
  the list of the matrices of the call, with pointers as positions in it: a cell is read
  from the store as it is when the loop reaches it.
\<close>

definition somarMatrizes :: "nat \<Rightarrow> nat \<Rightarrow> nat \<Rightarrow> nat \<Rightarrow> 'a::plus matriz list \<Rightarrow> 'a matriz list" where
  "somarMatrizes n a b c mem =
     para 0 n (\<lambda>i. para 0 n (\<lambda>j mem.
       mem[c := escrever (mem ! c) i j (mem ! a ! i ! j + mem ! b ! i ! j)])) mem"

definition subtrairMatrizes :: "nat \<Rightarrow> nat \<Rightarrow> nat \<Rightarrow> nat \<Rightarrow> 'a::minus matriz list \<Rightarrow> 'a matriz list" where
  "subtrairMatrizes n a b c mem =
     para 0 n (\<lambda>i. para 0 n (\<lambda>j mem.
       mem[c := escrever (mem ! c) i j (mem ! a ! i ! j - mem ! b ! i ! j)])) mem"

text \<open>
  The two loops of \<^verbatim>\<open>strassen\<close>: the one that copies the quadrants of \<open>A\<close> and \<open>B\<close>
  into eight fresh matrices, and the one that copies the quadrants of the result into
  \<open>C\<close>.
\<close>

definition strassen_dividir :: "nat \<Rightarrow> 'a::zero matriz \<Rightarrow> 'a matriz \<Rightarrow>
    'a matriz \<times> 'a matriz \<times> 'a matriz \<times> 'a matriz \<times> 'a matriz \<times> 'a matriz \<times> 'a matriz \<times> 'a matriz" where
  "strassen_dividir novo_n A B =
     para 0 novo_n (\<lambda>i. para 0 novo_n (\<lambda>j (A11, A12, A21, A22, B11, B12, B21, B22).
        (escrever A11 i j (A ! i ! j),
         escrever A12 i j (A ! i ! (j + novo_n)),
         escrever A21 i j (A ! (i + novo_n) ! j),
         escrever A22 i j (A ! (i + novo_n) ! (j + novo_n)),
         escrever B11 i j (B ! i ! j),
         escrever B12 i j (B ! i ! (j + novo_n)),
         escrever B21 i j (B ! (i + novo_n) ! j),
         escrever B22 i j (B ! (i + novo_n) ! (j + novo_n)))))
       (alocarMatriz novo_n, alocarMatriz novo_n, alocarMatriz novo_n, alocarMatriz novo_n,
        alocarMatriz novo_n, alocarMatriz novo_n, alocarMatriz novo_n, alocarMatriz novo_n)"

definition strassen_copiar :: "nat \<Rightarrow> 'a matriz \<Rightarrow> 'a matriz \<Rightarrow> 'a matriz \<Rightarrow> 'a matriz \<Rightarrow> 'a matriz \<Rightarrow> 'a matriz" where
  "strassen_copiar novo_n C11 C12 C21 C22 C =
     para 0 novo_n (\<lambda>i. para 0 novo_n (\<lambda>j C.
        let C = escrever C i j (C11 ! i ! j);
            C = escrever C i (j + novo_n) (C12 ! i ! j);
            C = escrever C (i + novo_n) j (C21 ! i ! j)
        in escrever C (i + novo_n) (j + novo_n) (C22 ! i ! j))) C"

text \<open>
  \<^verbatim>\<open>strassen(n, A, B, C)\<close>: the result is \<open>C\<close> as the call leaves it, or \<open>None\<close> when
  the call does not return (for \<open>n = 0\<close> the source recurses on \<open>n / 2 = 0\<close> for ever).
  \<open>A\<close>, \<open>B\<close> and \<open>C\<close> are distinct matrices, as in \<^verbatim>\<open>main\<close>.
\<close>

partial_function (option) strassen ::
  "nat \<Rightarrow> 'a::comm_ring matriz \<Rightarrow> 'a matriz \<Rightarrow> 'a matriz \<Rightarrow> 'a matriz option" where
  "strassen n A B C =
     (if n = 1 then Some (escrever C 0 0 (A ! 0 ! 0 * B ! 0 ! 0))
      else
        let novo_n = n div 2;
            (A11, A12, A21, A22, B11, B12, B21, B22) = strassen_dividir novo_n A B
        in do {
          let S1 = subtrairMatrizes novo_n 0 1 2 [B12, B22, alocarMatriz novo_n] ! 2;
          P1 \<leftarrow> strassen novo_n A11 S1 (alocarMatriz novo_n);
          let S2 = somarMatrizes novo_n 0 1 2 [A11, A12, alocarMatriz novo_n] ! 2;
          P2 \<leftarrow> strassen novo_n S2 B22 (alocarMatriz novo_n);
          let S3 = somarMatrizes novo_n 0 1 2 [A21, A22, alocarMatriz novo_n] ! 2;
          P3 \<leftarrow> strassen novo_n S3 B11 (alocarMatriz novo_n);
          let S4 = subtrairMatrizes novo_n 0 1 2 [B21, B11, alocarMatriz novo_n] ! 2;
          P4 \<leftarrow> strassen novo_n A22 S4 (alocarMatriz novo_n);
          let S5 = somarMatrizes novo_n 0 1 2 [A11, A22, alocarMatriz novo_n] ! 2;
          let S6 = somarMatrizes novo_n 0 1 2 [B11, B22, alocarMatriz novo_n] ! 2;
          P5 \<leftarrow> strassen novo_n S5 S6 (alocarMatriz novo_n);
          let S7 = subtrairMatrizes novo_n 0 1 2 [A12, A22, alocarMatriz novo_n] ! 2;
          let S8 = somarMatrizes novo_n 0 1 2 [B21, B22, alocarMatriz novo_n] ! 2;
          P6 \<leftarrow> strassen novo_n S7 S8 (alocarMatriz novo_n);
          let S9 = subtrairMatrizes novo_n 0 1 2 [A11, A21, alocarMatriz novo_n] ! 2;
          let S10 = somarMatrizes novo_n 0 1 2 [B11, B12, alocarMatriz novo_n] ! 2;
          P7 \<leftarrow> strassen novo_n S9 S10 (alocarMatriz novo_n);
          let C11 = somarMatrizes novo_n 0 1 2 [P5, P4, alocarMatriz novo_n] ! 2;
          let C11 = subtrairMatrizes novo_n 0 1 0 [C11, P2] ! 0;
          let C11 = somarMatrizes novo_n 0 1 0 [C11, P6] ! 0;
          let C12 = somarMatrizes novo_n 0 1 2 [P1, P2, alocarMatriz novo_n] ! 2;
          let C21 = somarMatrizes novo_n 0 1 2 [P3, P4, alocarMatriz novo_n] ! 2;
          let C22 = somarMatrizes novo_n 0 1 2 [P5, P1, alocarMatriz novo_n] ! 2;
          let C22 = subtrairMatrizes novo_n 0 1 0 [C22, P3] ! 0;
          let C22 = subtrairMatrizes novo_n 0 1 0 [C22, P7] ! 0;
          Some (strassen_copiar novo_n C11 C12 C21 C22 C)
        })"

declare strassen.simps [code]

text \<open>
  The reference: a square matrix of dimension \<open>n\<close>, and the product of two of them by
  the definition, \<open>C[i][j]\<close> the sum over \<open>t\<close> of \<open>A[i][t] * B[t][j]\<close>. \<open>tabela n f\<close>
  is the matrix whose cell \<open>(i, j)\<close> is \<open>f i j\<close>.
\<close>

definition matriz_quadrada :: "nat \<Rightarrow> 'a matriz \<Rightarrow> bool" where
  "matriz_quadrada n M \<longleftrightarrow> length M = n \<and> (\<forall>linha \<in> set M. length linha = n)"

definition produto :: "nat \<Rightarrow> 'a::comm_ring matriz \<Rightarrow> 'a matriz \<Rightarrow> 'a matriz" where
  "produto n A B =
     map (\<lambda>i. map (\<lambda>j. sum_list (map (\<lambda>t. A ! i ! t * B ! t ! j) [0..<n])) [0..<n]) [0..<n]"

definition tabela :: "nat \<Rightarrow> (nat \<Rightarrow> nat \<Rightarrow> 'a) \<Rightarrow> 'a matriz" where
  "tabela n f = map (\<lambda>i. map (\<lambda>j. f i j) [0..<n]) [0..<n]"

lemma para_fold: "para i n corpo s = fold corpo [i..<n] s"
proof (induction i n corpo s rule: para.induct)
  case (1 i n corpo s)
  show ?case
  proof (cases "i < n")
    case True
    then show ?thesis
      using "1.IH" by (subst para.simps) (simp add: upt_rec[of i n])
  next
    case False
    then show ?thesis by (subst para.simps) simp
  qed
qed

lemma para_fold_fun: "para i n corpo = fold corpo [i..<n]"
  by (rule ext) (rule para_fold)

lemma tabela_nth: "i < n \<Longrightarrow> j < n \<Longrightarrow> tabela n f ! i ! j = f i j"
  by (simp add: tabela_def)

lemma matriz_quadrada_tabela: "matriz_quadrada n (tabela n f)"
  by (auto simp: matriz_quadrada_def tabela_def)

lemma matriz_quadrada_alocar: "matriz_quadrada n (alocarMatriz n)"
  by (auto simp: matriz_quadrada_def alocarMatriz_def)

lemma matriz_quadrada_nth: "matriz_quadrada n M \<Longrightarrow> i < n \<Longrightarrow> length (M ! i) = n"
  by (auto simp: matriz_quadrada_def)

lemma matriz_eq_tabela:
  assumes "matriz_quadrada n M" "\<And>i j. i < n \<Longrightarrow> j < n \<Longrightarrow> M ! i ! j = f i j"
  shows "M = tabela n f"
proof (rule nth_equalityI)
  show "length M = length (tabela n f)"
    using assms(1) by (simp add: matriz_quadrada_def tabela_def)
  fix i assume "i < length M"
  then have i: "i < n" using assms(1) by (simp add: matriz_quadrada_def)
  show "M ! i = tabela n f ! i"
  proof (rule nth_equalityI)
    show "length (M ! i) = length (tabela n f ! i)"
      using matriz_quadrada_nth[OF assms(1) i] i by (simp add: tabela_def)
    fix j assume "j < length (M ! i)"
    then have "j < n" using matriz_quadrada_nth[OF assms(1) i] by simp
    then show "M ! i ! j = tabela n f ! i ! j"
      using assms(2) i by (simp add: tabela_nth)
  qed
qed

lemma tabela_cong:
  "(\<And>i j. i < n \<Longrightarrow> j < n \<Longrightarrow> f i j = g i j) \<Longrightarrow> tabela n f = tabela n g"
  by (simp add: tabela_def)

lemma length_escrever: "length (escrever M i j v) = length M"
  by (simp add: escrever_def)

lemma length_escrever_nth: "length (escrever M i j v ! p) = length (M ! p)"
  by (cases "p = i"; cases "i < length M") (simp_all add: escrever_def list_update_beyond)

lemma matriz_quadrada_iff:
  "matriz_quadrada n M \<longleftrightarrow> length M = n \<and> (\<forall>i<n. length (M ! i) = n)"
  by (auto simp: matriz_quadrada_def all_set_conv_all_nth)

lemma matriz_quadrada_escrever:
  "matriz_quadrada n M \<Longrightarrow> matriz_quadrada n (escrever M i j v)"
  by (simp add: matriz_quadrada_iff length_escrever length_escrever_nth)

lemma escrever_nth:
  "i < length M \<Longrightarrow> j < length (M ! i) \<Longrightarrow>
   escrever M i j v ! p ! q = (if p = i \<and> q = j then v else M ! p ! q)"
  by (cases "p = i"; cases "q = j") (simp_all add: escrever_def)


lemma preencher_linha:
  assumes "matriz_quadrada n D" "i < n" "m \<le> n"
  shows "matriz_quadrada n (fold (\<lambda>j D. escrever D i j (g j (D ! i ! j))) [0..<m] D)
       \<and> (\<forall>p q. p < n \<longrightarrow> q < n \<longrightarrow>
            fold (\<lambda>j D. escrever D i j (g j (D ! i ! j))) [0..<m] D ! p ! q
              = (if p = i \<and> q < m then g q (D ! i ! q) else D ! p ! q))"
  using assms(3)
proof (induction m)
  case 0
  then show ?case using assms(1) by simp
next
  case (Suc m)
  let ?D = "fold (\<lambda>j D. escrever D i j (g j (D ! i ! j))) [0..<m] D"
  have IH: "matriz_quadrada n ?D"
    "\<And>p q. p < n \<Longrightarrow> q < n \<Longrightarrow> ?D ! p ! q = (if p = i \<and> q < m then g q (D ! i ! q) else D ! p ! q)"
    using Suc by simp_all
  have len: "i < length ?D" "m < length (?D ! i)"
    using IH(1) assms(2) Suc.prems by (simp_all add: matriz_quadrada_iff)
  have step: "fold (\<lambda>j D. escrever D i j (g j (D ! i ! j))) [0..<Suc m] D
            = escrever ?D i m (g m (?D ! i ! m))"
    by simp
  show ?case
    unfolding step
    using IH assms(2) Suc.prems
    by (auto simp: matriz_quadrada_escrever escrever_nth[OF len] less_Suc_eq)
qed

lemma preencher:
  assumes "matriz_quadrada n D"
  shows "para 0 n (\<lambda>i. para 0 n (\<lambda>j D. escrever D i j (g i j (D ! i ! j)))) D
       = tabela n (\<lambda>i j. g i j (D ! i ! j))"
proof -
  let ?linha = "\<lambda>i D. fold (\<lambda>j D. escrever D i j (g i j (D ! i ! j))) [0..<n] D"
  have inv: "k \<le> n \<Longrightarrow> matriz_quadrada n (fold ?linha [0..<k] D)
       \<and> (\<forall>p q. p < n \<longrightarrow> q < n \<longrightarrow>
            fold ?linha [0..<k] D ! p ! q = (if p < k then g p q (D ! p ! q) else D ! p ! q))" for k
  proof (induction k)
    case 0
    then show ?case using assms by simp
  next
    case (Suc k)
    let ?D = "fold ?linha [0..<k] D"
    have IH: "matriz_quadrada n ?D"
      "\<And>p q. p < n \<Longrightarrow> q < n \<Longrightarrow> ?D ! p ! q = (if p < k then g p q (D ! p ! q) else D ! p ! q)"
      using Suc by simp_all
    have k: "k < n" using Suc.prems by simp
    note linha = preencher_linha[OF IH(1) k order_refl, of "g k"]
    have step: "fold ?linha [0..<Suc k] D = ?linha k ?D" by simp
    show ?case
      unfolding step using linha IH(2) k by (auto simp: less_Suc_eq)
  qed
  have "fold ?linha [0..<n] D = tabela n (\<lambda>i j. g i j (D ! i ! j))"
    using inv[of n] by (intro matriz_eq_tabela) auto
  then show ?thesis by (simp add: para_fold_fun)
qed


text \<open>Three distinct matrices in the store, and the destination as first operand.\<close>

lemma fold_mem_distintas:
  "fold (\<lambda>j mem. mem[2 := escrever (mem ! 2) i j (opr (mem ! 0 ! i ! j) (mem ! 1 ! i ! j))]) js [A, B, D]
   = [A, B, fold (\<lambda>j D. escrever D i j (opr (A ! i ! j) (B ! i ! j))) js D]"
  by (induction js arbitrary: D) simp_all

lemma fold_mem_distintas2:
  "fold (\<lambda>i. fold (\<lambda>j mem. mem[2 := escrever (mem ! 2) i j (opr (mem ! 0 ! i ! j) (mem ! 1 ! i ! j))]) js) is [A, B, D]
   = [A, B, fold (\<lambda>i. fold (\<lambda>j D. escrever D i j (opr (A ! i ! j) (B ! i ! j))) js) is D]"
  by (induction "is" arbitrary: D) (simp_all del: One_nat_def add: fold_mem_distintas)

lemma fold_mem_destino:
  "fold (\<lambda>j mem. mem[0 := escrever (mem ! 0) i j (opr (mem ! 0 ! i ! j) (mem ! 1 ! i ! j))]) js [D, B]
   = [fold (\<lambda>j D. escrever D i j (opr (D ! i ! j) (B ! i ! j))) js D, B]"
  by (induction js arbitrary: D) simp_all

lemma fold_mem_destino2:
  "fold (\<lambda>i. fold (\<lambda>j mem. mem[0 := escrever (mem ! 0) i j (opr (mem ! 0 ! i ! j) (mem ! 1 ! i ! j))]) js) is [D, B]
   = [fold (\<lambda>i. fold (\<lambda>j D. escrever D i j (opr (D ! i ! j) (B ! i ! j))) js) is D, B]"
  by (induction "is" arbitrary: D) (simp_all del: One_nat_def add: fold_mem_destino)

lemma somarMatrizes_distintas:
  assumes "matriz_quadrada n D"
  shows "somarMatrizes n 0 1 2 [A, B, D] ! 2 = tabela n (\<lambda>i j. A ! i ! j + B ! i ! j)"
  using preencher[OF assms, of "\<lambda>i j x. A ! i ! j + B ! i ! j"]
  by (simp del: One_nat_def add: somarMatrizes_def para_fold_fun fold_mem_distintas2)

lemma subtrairMatrizes_distintas:
  assumes "matriz_quadrada n D"
  shows "subtrairMatrizes n 0 1 2 [A, B, D] ! 2 = tabela n (\<lambda>i j. A ! i ! j - B ! i ! j)"
  using preencher[OF assms, of "\<lambda>i j x. A ! i ! j - B ! i ! j"]
  by (simp del: One_nat_def add: subtrairMatrizes_def para_fold_fun fold_mem_distintas2)

lemma somarMatrizes_destino:
  assumes "matriz_quadrada n D"
  shows "somarMatrizes n 0 1 0 [D, B] ! 0 = tabela n (\<lambda>i j. D ! i ! j + B ! i ! j)"
  using preencher[OF assms, of "\<lambda>i j x. x + B ! i ! j"]
  by (simp del: One_nat_def add: somarMatrizes_def para_fold_fun fold_mem_destino2)

lemma subtrairMatrizes_destino:
  assumes "matriz_quadrada n D"
  shows "subtrairMatrizes n 0 1 0 [D, B] ! 0 = tabela n (\<lambda>i j. D ! i ! j - B ! i ! j)"
  using preencher[OF assms, of "\<lambda>i j x. x - B ! i ! j"]
  by (simp del: One_nat_def add: subtrairMatrizes_def para_fold_fun fold_mem_destino2)

lemma fold_oito:
  "fold (\<lambda>k (x1, x2, x3, x4, x5, x6, x7, x8).
           (f1 k x1, f2 k x2, f3 k x3, f4 k x4, f5 k x5, f6 k x6, f7 k x7, f8 k x8)) xs
        (x1, x2, x3, x4, x5, x6, x7, x8)
   = (fold f1 xs x1, fold f2 xs x2, fold f3 xs x3, fold f4 xs x4,
      fold f5 xs x5, fold f6 xs x6, fold f7 xs x7, fold f8 xs x8)"
  by (induction xs arbitrary: x1 x2 x3 x4 x5 x6 x7 x8) simp_all

lemma fold_oito_fun:
  "fold (\<lambda>k (x1, x2, x3, x4, x5, x6, x7, x8).
           (f1 k x1, f2 k x2, f3 k x3, f4 k x4, f5 k x5, f6 k x6, f7 k x7, f8 k x8)) xs
   = (\<lambda>(x1, x2, x3, x4, x5, x6, x7, x8).
        (fold f1 xs x1, fold f2 xs x2, fold f3 xs x3, fold f4 xs x4,
         fold f5 xs x5, fold f6 xs x6, fold f7 xs x7, fold f8 xs x8))"
  by (rule ext) (auto simp: fold_oito)

lemma strassen_dividir_tabela:
  "strassen_dividir h A B =
     (tabela h (\<lambda>i j. A ! i ! j), tabela h (\<lambda>i j. A ! i ! (j + h)),
      tabela h (\<lambda>i j. A ! (i + h) ! j), tabela h (\<lambda>i j. A ! (i + h) ! (j + h)),
      tabela h (\<lambda>i j. B ! i ! j), tabela h (\<lambda>i j. B ! i ! (j + h)),
      tabela h (\<lambda>i j. B ! (i + h) ! j), tabela h (\<lambda>i j. B ! (i + h) ! (j + h)))"
proof -
  have p: "fold (\<lambda>i. fold (\<lambda>j D. escrever D i j (g i j)) [0..<h]) [0..<h] (alocarMatriz h) = tabela h g"
    for g :: "nat \<Rightarrow> nat \<Rightarrow> 'a"
    using preencher[OF matriz_quadrada_alocar, of h "\<lambda>i j x. g i j"]
    by (simp add: para_fold_fun)
  show ?thesis
    unfolding strassen_dividir_def para_fold_fun fold_oito_fun
    by (simp add: p)
qed


definition bloco :: "nat \<Rightarrow> 'a matriz \<Rightarrow> 'a matriz \<Rightarrow> 'a matriz \<Rightarrow> 'a matriz \<Rightarrow> nat \<Rightarrow> nat \<Rightarrow> 'a" where
  "bloco h C11 C12 C21 C22 p q =
     (if p < h then (if q < h then C11 ! p ! q else C12 ! p ! (q - h))
      else (if q < h then C21 ! (p - h) ! q else C22 ! (p - h) ! (q - h)))"

lemma escrever_nth_quadrada:
  "matriz_quadrada n M \<Longrightarrow> i < n \<Longrightarrow> j < n \<Longrightarrow>
   escrever M i j v ! p ! q = (if p = i \<and> q = j then v else M ! p ! q)"
  by (rule escrever_nth) (simp_all add: matriz_quadrada_iff)

lemma strassen_copiar_linha:
  assumes "matriz_quadrada (2 * h) C" "i < h" "m \<le> h"
  shows "matriz_quadrada (2 * h) (fold (\<lambda>j C.
        let C = escrever C i j (C11 ! i ! j);
            C = escrever C i (j + h) (C12 ! i ! j);
            C = escrever C (i + h) j (C21 ! i ! j)
        in escrever C (i + h) (j + h) (C22 ! i ! j)) [0..<m] C)
       \<and> (\<forall>p q. p < 2 * h \<longrightarrow> q < 2 * h \<longrightarrow>
            fold (\<lambda>j C.
        let C = escrever C i j (C11 ! i ! j);
            C = escrever C i (j + h) (C12 ! i ! j);
            C = escrever C (i + h) j (C21 ! i ! j)
        in escrever C (i + h) (j + h) (C22 ! i ! j)) [0..<m] C ! p ! q
              = (if (p = i \<or> p = i + h) \<and> (q < m \<or> (h \<le> q \<and> q < h + m))
                 then bloco h C11 C12 C21 C22 p q else C ! p ! q))"
    (is "matriz_quadrada _ (fold ?corpo _ _) \<and> _")
  using assms(3)
proof (induction m)
  case 0
  then show ?case using assms(1) by auto
next
  case (Suc m)
  let ?D = "fold ?corpo [0..<m] C"
  have IH: "matriz_quadrada (2 * h) ?D"
    "\<And>p q. p < 2 * h \<Longrightarrow> q < 2 * h \<Longrightarrow> ?D ! p ! q
              = (if (p = i \<or> p = i + h) \<and> (q < m \<or> (h \<le> q \<and> q < h + m))
                 then bloco h C11 C12 C21 C22 p q else C ! p ! q)"
    using Suc by simp_all
  have b: "i < 2 * h" "i + h < 2 * h" "m < 2 * h" "m + h < 2 * h"
    using assms(2) Suc.prems by simp_all
  let ?D1 = "escrever ?D i m (C11 ! i ! m)"
  let ?D2 = "escrever ?D1 i (m + h) (C12 ! i ! m)"
  let ?D3 = "escrever ?D2 (i + h) m (C21 ! i ! m)"
  let ?D4 = "escrever ?D3 (i + h) (m + h) (C22 ! i ! m)"
  have q1: "matriz_quadrada (2 * h) ?D1" by (intro matriz_quadrada_escrever IH(1))
  have q2: "matriz_quadrada (2 * h) ?D2" by (intro matriz_quadrada_escrever IH(1))
  have q3: "matriz_quadrada (2 * h) ?D3" by (intro matriz_quadrada_escrever IH(1))
  have q4: "matriz_quadrada (2 * h) ?D4" by (intro matriz_quadrada_escrever IH(1))
  have step: "fold ?corpo [0..<Suc m] C = ?D4"
    by (simp add: Let_def)
  have cell: "?D4 ! p ! q =
      (if p = i + h \<and> q = m + h then C22 ! i ! m
       else if p = i + h \<and> q = m then C21 ! i ! m
       else if p = i \<and> q = m + h then C12 ! i ! m
       else if p = i \<and> q = m then C11 ! i ! m
       else ?D ! p ! q)" for p q
    by (simp only: escrever_nth_quadrada[OF q3 b(2,4)] escrever_nth_quadrada[OF q2 b(2,3)]
        escrever_nth_quadrada[OF q1 b(1,4)] escrever_nth_quadrada[OF IH(1) b(1,3)])
  have "?D4 ! p ! q
      = (if (p = i \<or> p = i + h) \<and> (q < Suc m \<or> (h \<le> q \<and> q < h + Suc m))
         then bloco h C11 C12 C21 C22 p q else C ! p ! q)"
    if "p < 2 * h" "q < 2 * h" for p q
    unfolding cell using IH(2)[OF that] assms(2) Suc.prems
    by (auto simp: bloco_def less_Suc_eq)
  then show ?case
    unfolding step using q4 by blast
qed

lemma strassen_copiar_tabela:
  assumes "matriz_quadrada (2 * h) C"
  shows "strassen_copiar h C11 C12 C21 C22 C = tabela (2 * h) (bloco h C11 C12 C21 C22)"
proof -
  let ?corpo = "\<lambda>i j C.
        let C = escrever C i j (C11 ! i ! j);
            C = escrever C i (j + h) (C12 ! i ! j);
            C = escrever C (i + h) j (C21 ! i ! j)
        in escrever C (i + h) (j + h) (C22 ! i ! j)"
  let ?linha = "\<lambda>i. fold (?corpo i) [0..<h]"
  have inv: "k \<le> h \<Longrightarrow> matriz_quadrada (2 * h) (fold ?linha [0..<k] C)
       \<and> (\<forall>p q. p < 2 * h \<longrightarrow> q < 2 * h \<longrightarrow>
            fold ?linha [0..<k] C ! p ! q
              = (if p < k \<or> (h \<le> p \<and> p < h + k)
                 then bloco h C11 C12 C21 C22 p q else C ! p ! q))" for k
  proof (induction k)
    case 0
    then show ?case using assms by auto
  next
    case (Suc k)
    let ?D = "fold ?linha [0..<k] C"
    have IH: "matriz_quadrada (2 * h) ?D"
      "\<And>p q. p < 2 * h \<Longrightarrow> q < 2 * h \<Longrightarrow> ?D ! p ! q
              = (if p < k \<or> (h \<le> p \<and> p < h + k)
                 then bloco h C11 C12 C21 C22 p q else C ! p ! q)"
      using Suc by simp_all
    have k: "k < h" using Suc.prems by simp
    note linha = strassen_copiar_linha[OF IH(1) k order_refl, where ?C11.0 = C11 and ?C12.0 = C12 and ?C21.0 = C21 and ?C22.0 = C22]
    have step: "fold ?linha [0..<Suc k] C = ?linha k ?D" by simp
    have "?linha k ?D ! p ! q
        = (if p < Suc k \<or> (h \<le> p \<and> p < h + Suc k)
           then bloco h C11 C12 C21 C22 p q else C ! p ! q)"
      if "p < 2 * h" "q < 2 * h" for p q
      using linha[THEN conjunct2, rule_format, OF that] IH(2)[OF that] k that
      by (auto simp: less_Suc_eq)
    then show ?case
      unfolding step using linha by blast
  qed
  have "fold ?linha [0..<h] C = tabela (2 * h) (bloco h C11 C12 C21 C22)"
    using inv[of h] by (intro matriz_eq_tabela) auto
  then show ?thesis by (simp add: strassen_copiar_def para_fold_fun)
qed


lemma produto_tabela:
  "produto n A B = tabela n (\<lambda>i j. \<Sum>t = 0..<n. A ! i ! t * B ! t ! j)"
  by (simp add: produto_def tabela_def interv_sum_list_conv_sum_set_nat)

lemma produto_nth:
  "i < n \<Longrightarrow> j < n \<Longrightarrow> produto n A B ! i ! j = (\<Sum>t = 0..<n. A ! i ! t * B ! t ! j)"
  by (simp add: produto_tabela tabela_nth)

lemma matriz_quadrada_produto: "matriz_quadrada n (produto n A B)"
  by (simp add: produto_tabela matriz_quadrada_tabela)

lemma soma_metades:
  fixes f :: "nat \<Rightarrow> 'a::comm_monoid_add"
  shows "(\<Sum>t = 0..<2 * h. f t) = (\<Sum>t = 0..<h. f t) + (\<Sum>t = 0..<h. f (t + h))"
proof -
  have "(\<Sum>t = 0..<2 * h. f t) = (\<Sum>t = 0..<h. f t) + (\<Sum>t = 0 + h..<h + h. f t)"
    by (simp add: sum.atLeastLessThan_concat mult_2)
  also have "(\<Sum>t = 0 + h..<h + h. f t) = (\<Sum>t = 0..<h. f (t + h))"
    by (rule sum.shift_bounds_nat_ivl)
  finally show ?thesis .
qed

lemma strassen_identidades:
  fixes a11 a12 a21 a22 b11 b12 b21 b22 :: "nat \<Rightarrow> 'a::comm_ring"
  shows "(\<Sum>t = 0..<h. (a11 t + a22 t) * (b11 t + b22 t)) + (\<Sum>t = 0..<h. a22 t * (b21 t - b11 t))
          - (\<Sum>t = 0..<h. (a11 t + a12 t) * b22 t) + (\<Sum>t = 0..<h. (a12 t - a22 t) * (b21 t + b22 t))
        = (\<Sum>t = 0..<h. a11 t * b11 t) + (\<Sum>t = 0..<h. a12 t * b21 t)"
    and "(\<Sum>t = 0..<h. a11 t * (b12 t - b22 t)) + (\<Sum>t = 0..<h. (a11 t + a12 t) * b22 t)
        = (\<Sum>t = 0..<h. a11 t * b12 t) + (\<Sum>t = 0..<h. a12 t * b22 t)"
    and "(\<Sum>t = 0..<h. (a21 t + a22 t) * b11 t) + (\<Sum>t = 0..<h. a22 t * (b21 t - b11 t))
        = (\<Sum>t = 0..<h. a21 t * b11 t) + (\<Sum>t = 0..<h. a22 t * b21 t)"
    and "(\<Sum>t = 0..<h. (a11 t + a22 t) * (b11 t + b22 t)) + (\<Sum>t = 0..<h. a11 t * (b12 t - b22 t))
          - (\<Sum>t = 0..<h. (a21 t + a22 t) * b11 t) - (\<Sum>t = 0..<h. (a11 t - a21 t) * (b11 t + b12 t))
        = (\<Sum>t = 0..<h. a21 t * b12 t) + (\<Sum>t = 0..<h. a22 t * b22 t)"
  by (simp_all add: algebra_simps sum.distrib sum_subtractf)


lemma strassen_passo:
  fixes A B C :: "'a::comm_ring matriz"
  assumes h: "0 < h"
    and IH: "\<And>X Y Z :: 'a matriz. matriz_quadrada h X \<Longrightarrow> matriz_quadrada h Y \<Longrightarrow>
               matriz_quadrada h Z \<Longrightarrow> strassen h X Y Z = Some (produto h X Y)"
    and C: "matriz_quadrada (2 * h) C"
  shows "strassen (2 * h) A B C = Some (produto (2 * h) A B)"
proof -
  define A11 where "A11 = tabela h (\<lambda>i j. A ! i ! j)"
  define A12 where "A12 = tabela h (\<lambda>i j. A ! i ! (j + h))"
  define A21 where "A21 = tabela h (\<lambda>i j. A ! (i + h) ! j)"
  define A22 where "A22 = tabela h (\<lambda>i j. A ! (i + h) ! (j + h))"
  define B11 where "B11 = tabela h (\<lambda>i j. B ! i ! j)"
  define B12 where "B12 = tabela h (\<lambda>i j. B ! i ! (j + h))"
  define B21 where "B21 = tabela h (\<lambda>i j. B ! (i + h) ! j)"
  define B22 where "B22 = tabela h (\<lambda>i j. B ! (i + h) ! (j + h))"
  note quad = A11_def A12_def A21_def A22_def B11_def B12_def B21_def B22_def
  have div: "strassen_dividir h A B = (A11, A12, A21, A22, B11, B12, B21, B22)"
    unfolding quad by (rule strassen_dividir_tabela)
  define S1 where "S1 = tabela h (\<lambda>i j. B12 ! i ! j - B22 ! i ! j)"
  define S2 where "S2 = tabela h (\<lambda>i j. A11 ! i ! j + A12 ! i ! j)"
  define S3 where "S3 = tabela h (\<lambda>i j. A21 ! i ! j + A22 ! i ! j)"
  define S4 where "S4 = tabela h (\<lambda>i j. B21 ! i ! j - B11 ! i ! j)"
  define S5 where "S5 = tabela h (\<lambda>i j. A11 ! i ! j + A22 ! i ! j)"
  define S6 where "S6 = tabela h (\<lambda>i j. B11 ! i ! j + B22 ! i ! j)"
  define S7 where "S7 = tabela h (\<lambda>i j. A12 ! i ! j - A22 ! i ! j)"
  define S8 where "S8 = tabela h (\<lambda>i j. B21 ! i ! j + B22 ! i ! j)"
  define S9 where "S9 = tabela h (\<lambda>i j. A11 ! i ! j - A21 ! i ! j)"
  define S10 where "S10 = tabela h (\<lambda>i j. B11 ! i ! j + B12 ! i ! j)"
  note somas = S1_def S2_def S3_def S4_def S5_def S6_def S7_def S8_def S9_def S10_def
  note z = matriz_quadrada_alocar[of h]
  have S: "subtrairMatrizes h 0 1 2 [B12, B22, alocarMatriz h] ! 2 = S1"
    "somarMatrizes h 0 1 2 [A11, A12, alocarMatriz h] ! 2 = S2"
    "somarMatrizes h 0 1 2 [A21, A22, alocarMatriz h] ! 2 = S3"
    "subtrairMatrizes h 0 1 2 [B21, B11, alocarMatriz h] ! 2 = S4"
    "somarMatrizes h 0 1 2 [A11, A22, alocarMatriz h] ! 2 = S5"
    "somarMatrizes h 0 1 2 [B11, B22, alocarMatriz h] ! 2 = S6"
    "subtrairMatrizes h 0 1 2 [A12, A22, alocarMatriz h] ! 2 = S7"
    "somarMatrizes h 0 1 2 [B21, B22, alocarMatriz h] ! 2 = S8"
    "subtrairMatrizes h 0 1 2 [A11, A21, alocarMatriz h] ! 2 = S9"
    "somarMatrizes h 0 1 2 [B11, B12, alocarMatriz h] ! 2 = S10"
    unfolding somas
    by (rule somarMatrizes_distintas[OF z] subtrairMatrizes_distintas[OF z])+
  have mq: "matriz_quadrada h A11" "matriz_quadrada h A22" "matriz_quadrada h B11" "matriz_quadrada h B22"
    "matriz_quadrada h S1" "matriz_quadrada h S2" "matriz_quadrada h S3" "matriz_quadrada h S4"
    "matriz_quadrada h S5" "matriz_quadrada h S6" "matriz_quadrada h S7" "matriz_quadrada h S8"
    "matriz_quadrada h S9" "matriz_quadrada h S10"
    unfolding quad somas by (rule matriz_quadrada_tabela)+
  define P1 where "P1 = produto h A11 S1"
  define P2 where "P2 = produto h S2 B22"
  define P3 where "P3 = produto h S3 B11"
  define P4 where "P4 = produto h A22 S4"
  define P5 where "P5 = produto h S5 S6"
  define P6 where "P6 = produto h S7 S8"
  define P7 where "P7 = produto h S9 S10"
  note prods = P1_def P2_def P3_def P4_def P5_def P6_def P7_def
  have P: "strassen h A11 S1 (alocarMatriz h) = Some P1"
    "strassen h S2 B22 (alocarMatriz h) = Some P2"
    "strassen h S3 B11 (alocarMatriz h) = Some P3"
    "strassen h A22 S4 (alocarMatriz h) = Some P4"
    "strassen h S5 S6 (alocarMatriz h) = Some P5"
    "strassen h S7 S8 (alocarMatriz h) = Some P6"
    "strassen h S9 S10 (alocarMatriz h) = Some P7"
    unfolding prods by (intro IH mq z)+
  define C11a where "C11a = tabela h (\<lambda>i j. P5 ! i ! j + P4 ! i ! j)"
  define C11b where "C11b = tabela h (\<lambda>i j. C11a ! i ! j - P2 ! i ! j)"
  define C11 where "C11 = tabela h (\<lambda>i j. C11b ! i ! j + P6 ! i ! j)"
  define C12 where "C12 = tabela h (\<lambda>i j. P1 ! i ! j + P2 ! i ! j)"
  define C21 where "C21 = tabela h (\<lambda>i j. P3 ! i ! j + P4 ! i ! j)"
  define C22a where "C22a = tabela h (\<lambda>i j. P5 ! i ! j + P1 ! i ! j)"
  define C22b where "C22b = tabela h (\<lambda>i j. C22a ! i ! j - P3 ! i ! j)"
  define C22 where "C22 = tabela h (\<lambda>i j. C22b ! i ! j - P7 ! i ! j)"
  note recomb = C11a_def C11b_def C11_def C12_def C21_def C22a_def C22b_def C22_def
  have mc: "matriz_quadrada h C11a" "matriz_quadrada h C11b" "matriz_quadrada h C22a"
    "matriz_quadrada h C22b"
    unfolding C11a_def C11b_def C22a_def C22b_def by (rule matriz_quadrada_tabela)+
  have R: "somarMatrizes h 0 1 2 [P5, P4, alocarMatriz h] ! 2 = C11a"
    "subtrairMatrizes h 0 1 0 [C11a, P2] ! 0 = C11b"
    "somarMatrizes h 0 1 0 [C11b, P6] ! 0 = C11"
    "somarMatrizes h 0 1 2 [P1, P2, alocarMatriz h] ! 2 = C12"
    "somarMatrizes h 0 1 2 [P3, P4, alocarMatriz h] ! 2 = C21"
    "somarMatrizes h 0 1 2 [P5, P1, alocarMatriz h] ! 2 = C22a"
    "subtrairMatrizes h 0 1 0 [C22a, P3] ! 0 = C22b"
    "subtrairMatrizes h 0 1 0 [C22b, P7] ! 0 = C22"
  proof -
    show "somarMatrizes h 0 1 2 [P5, P4, alocarMatriz h] ! 2 = C11a"
      unfolding C11a_def by (rule somarMatrizes_distintas[OF z])
    show "subtrairMatrizes h 0 1 0 [C11a, P2] ! 0 = C11b"
      unfolding C11b_def by (rule subtrairMatrizes_destino[OF mc(1)])
    show "somarMatrizes h 0 1 0 [C11b, P6] ! 0 = C11"
      unfolding C11_def by (rule somarMatrizes_destino[OF mc(2)])
    show "somarMatrizes h 0 1 2 [P1, P2, alocarMatriz h] ! 2 = C12"
      unfolding C12_def by (rule somarMatrizes_distintas[OF z])
    show "somarMatrizes h 0 1 2 [P3, P4, alocarMatriz h] ! 2 = C21"
      unfolding C21_def by (rule somarMatrizes_distintas[OF z])
    show "somarMatrizes h 0 1 2 [P5, P1, alocarMatriz h] ! 2 = C22a"
      unfolding C22a_def by (rule somarMatrizes_distintas[OF z])
    show "subtrairMatrizes h 0 1 0 [C22a, P3] ! 0 = C22b"
      unfolding C22b_def by (rule subtrairMatrizes_destino[OF mc(3)])
    show "subtrairMatrizes h 0 1 0 [C22b, P7] ! 0 = C22"
      unfolding C22_def by (rule subtrairMatrizes_destino[OF mc(4)])
  qed
  have n: "2 * h \<noteq> 1" "2 * h div 2 = h" using h by simp_all
  have "strassen (2 * h) A B C = Some (strassen_copiar h C11 C12 C21 C22 C)"
    by (subst strassen.simps) (simp only: n if_False Let_def div prod.case S P R bind.bind_lunit)
  also have "strassen_copiar h C11 C12 C21 C22 C = tabela (2 * h) (bloco h C11 C12 C21 C22)"
    by (rule strassen_copiar_tabela[OF C])
  also have "\<dots> = produto (2 * h) A B"
    unfolding produto_tabela
  proof (rule tabela_cong)
    fix p q assume pq: "p < 2 * h" "q < 2 * h"
    have ent: "i < h \<Longrightarrow> j < h \<Longrightarrow> A11 ! i ! j = A ! i ! j"
      "i < h \<Longrightarrow> j < h \<Longrightarrow> A12 ! i ! j = A ! i ! (j + h)"
      "i < h \<Longrightarrow> j < h \<Longrightarrow> A21 ! i ! j = A ! (i + h) ! j"
      "i < h \<Longrightarrow> j < h \<Longrightarrow> A22 ! i ! j = A ! (i + h) ! (j + h)"
      "i < h \<Longrightarrow> j < h \<Longrightarrow> B11 ! i ! j = B ! i ! j"
      "i < h \<Longrightarrow> j < h \<Longrightarrow> B12 ! i ! j = B ! i ! (j + h)"
      "i < h \<Longrightarrow> j < h \<Longrightarrow> B21 ! i ! j = B ! (i + h) ! j"
      "i < h \<Longrightarrow> j < h \<Longrightarrow> B22 ! i ! j = B ! (i + h) ! (j + h)" for i j
      unfolding quad by (simp_all add: tabela_nth)
    have sm: "i < h \<Longrightarrow> j < h \<Longrightarrow> S1 ! i ! j = B12 ! i ! j - B22 ! i ! j"
      "i < h \<Longrightarrow> j < h \<Longrightarrow> S2 ! i ! j = A11 ! i ! j + A12 ! i ! j"
      "i < h \<Longrightarrow> j < h \<Longrightarrow> S3 ! i ! j = A21 ! i ! j + A22 ! i ! j"
      "i < h \<Longrightarrow> j < h \<Longrightarrow> S4 ! i ! j = B21 ! i ! j - B11 ! i ! j"
      "i < h \<Longrightarrow> j < h \<Longrightarrow> S5 ! i ! j = A11 ! i ! j + A22 ! i ! j"
      "i < h \<Longrightarrow> j < h \<Longrightarrow> S6 ! i ! j = B11 ! i ! j + B22 ! i ! j"
      "i < h \<Longrightarrow> j < h \<Longrightarrow> S7 ! i ! j = A12 ! i ! j - A22 ! i ! j"
      "i < h \<Longrightarrow> j < h \<Longrightarrow> S8 ! i ! j = B21 ! i ! j + B22 ! i ! j"
      "i < h \<Longrightarrow> j < h \<Longrightarrow> S9 ! i ! j = A11 ! i ! j - A21 ! i ! j"
      "i < h \<Longrightarrow> j < h \<Longrightarrow> S10 ! i ! j = B11 ! i ! j + B12 ! i ! j" for i j
      unfolding somas by (simp_all add: tabela_nth)
    have pr: "P1 ! i ! j = (\<Sum>t = 0..<h. A ! i ! t * (B ! t ! (j + h) - B ! (t + h) ! (j + h)))"
      "P2 ! i ! j = (\<Sum>t = 0..<h. (A ! i ! t + A ! i ! (t + h)) * B ! (t + h) ! (j + h))"
      "P3 ! i ! j = (\<Sum>t = 0..<h. (A ! (i + h) ! t + A ! (i + h) ! (t + h)) * B ! t ! j)"
      "P4 ! i ! j = (\<Sum>t = 0..<h. A ! (i + h) ! (t + h) * (B ! (t + h) ! j - B ! t ! j))"
      "P5 ! i ! j = (\<Sum>t = 0..<h. (A ! i ! t + A ! (i + h) ! (t + h)) * (B ! t ! j + B ! (t + h) ! (j + h)))"
      "P6 ! i ! j = (\<Sum>t = 0..<h. (A ! i ! (t + h) - A ! (i + h) ! (t + h)) * (B ! (t + h) ! j + B ! (t + h) ! (j + h)))"
      "P7 ! i ! j = (\<Sum>t = 0..<h. (A ! i ! t - A ! (i + h) ! t) * (B ! t ! j + B ! t ! (j + h)))"
      if "i < h" "j < h" for i j
      unfolding prods using that by (simp_all add: produto_nth ent sm cong: sum.cong_simp)
    have cc: "C11 ! i ! j = P5 ! i ! j + P4 ! i ! j - P2 ! i ! j + P6 ! i ! j"
      "C12 ! i ! j = P1 ! i ! j + P2 ! i ! j"
      "C21 ! i ! j = P3 ! i ! j + P4 ! i ! j"
      "C22 ! i ! j = P5 ! i ! j + P1 ! i ! j - P3 ! i ! j - P7 ! i ! j"
      if "i < h" "j < h" for i j
      unfolding recomb using that by (simp_all add: tabela_nth)
    show "bloco h C11 C12 C21 C22 p q = (\<Sum>t = 0..<2 * h. A ! p ! t * B ! t ! q)"
    proof (cases "p < h")
      case p: True
      show ?thesis
      proof (cases "q < h")
        case q: True
        show ?thesis
          unfolding soma_metades using p q
          by (simp only: bloco_def if_True cc pr strassen_identidades(1))
      next
        case False
        then have q: "q - h < h" "q - h + h = q" using pq by simp_all
        show ?thesis
          unfolding soma_metades using p False q(1)
          by (simp only: bloco_def if_True if_False cc pr strassen_identidades(2) q(2))
      qed
    next
      case False
      then have p: "p - h < h" "p - h + h = p" using pq by simp_all
      show ?thesis
      proof (cases "q < h")
        case q: True
        show ?thesis
          unfolding soma_metades using False p(1) q
          by (simp only: bloco_def if_True if_False cc pr strassen_identidades(3) p(2))
      next
        case q0: False
        then have q: "q - h < h" "q - h + h = q" using pq by simp_all
        show ?thesis
          unfolding soma_metades using False q0 p(1) q(1)
          by (simp only: bloco_def if_True if_False cc pr strassen_identidades(4) p(2) q(2))
      qed
    qed
  qed
  finally show ?thesis .
qed

text \<open>
  Claim C10. For every \<open>n\<close> that is a power of two and all square matrices \<open>A\<close>, \<open>B\<close>
  and \<open>C\<close> of dimension \<open>n\<close>, \<^verbatim>\<open>strassen(n, A, B, C)\<close> returns, and leaves in \<open>C\<close>
  exactly the product of \<open>A\<close> and \<open>B\<close> as the definition gives it, whatever \<open>C\<close> held.
  The instances below are one over the integers and one over the 32-bit words, where
  \<open>65536 * 65536\<close> wraps to 0.
\<close>

theorem strassen_produto:
  fixes A B C :: "'a::comm_ring matriz"
  assumes "n = 2 ^ k" "matriz_quadrada n A" "matriz_quadrada n B" "matriz_quadrada n C"
  shows "strassen n A B C = Some (produto n A B)"
  using assms
proof (induction k arbitrary: n A B C)
  case 0
  then have n: "n = 1" by simp
  obtain c where C: "C = [[c]]"
    using "0.prems"(4) unfolding n matriz_quadrada_def
    by (cases C; cases "hd C") (auto simp: length_Suc_conv)
  show ?case
    unfolding n by (subst strassen.simps) (simp add: C escrever_def produto_def)
next
  case (Suc k)
  have n: "n = 2 * 2 ^ k" using Suc.prems(1) by simp
  show ?case
    unfolding n
  proof (rule strassen_passo)
    show "(0::nat) < 2 ^ k" by simp
    show "matriz_quadrada (2 * 2 ^ k) C" using Suc.prems(4) unfolding n .
    fix X Y Z :: "'a matriz"
    assume "matriz_quadrada (2 ^ k) X" "matriz_quadrada (2 ^ k) Y" "matriz_quadrada (2 ^ k) Z"
    then show "strassen (2 ^ k) X Y Z = Some (produto (2 ^ k) X Y)"
      by (intro Suc.IH) auto
  qed
qed

theorem strassen_produto_witness:
  "(2::nat) = 2 ^ 1 \<and> matriz_quadrada 2 [[1, 2], [3, 4::int]] \<and> matriz_quadrada 2 [[5, 6], [7, 8::int]]
   \<and> matriz_quadrada 2 (alocarMatriz 2 :: int matriz)
   \<and> strassen 2 [[1, 2], [3, 4]] [[5, 6], [7, 8::int]] (alocarMatriz 2) = Some [[19, 22], [43, 50]]
   \<and> strassen 2 [[65536, 3], [0, 1]] [[65536, 0], [5, 1 :: 32 word]] (alocarMatriz 2)
       = Some [[15, 3], [5, 1]]"
proof -
  have a: "(2::nat) = 2 ^ 1" "matriz_quadrada 2 [[1, 2], [3, 4::int]]"
    "matriz_quadrada 2 [[5, 6], [7, 8::int]]" "matriz_quadrada 2 (alocarMatriz 2 :: int matriz)"
    by (simp_all add: matriz_quadrada_def alocarMatriz_def)
  have w: "matriz_quadrada 2 [[65536, 3], [0, 1 :: 32 word]]"
    "matriz_quadrada 2 [[65536, 0], [5, 1 :: 32 word]]"
    "matriz_quadrada 2 (alocarMatriz 2 :: 32 word matriz)"
    by (simp_all add: matriz_quadrada_def alocarMatriz_def)
  have "produto 2 [[1, 2], [3, 4]] [[5, 6], [7, 8::int]] = [[19, 22], [43, 50]]"
    by code_simp
  moreover have "produto 2 [[65536, 3], [0, 1]] [[65536, 0], [5, 1 :: 32 word]] = [[15, 3], [5, 1]]"
    by (simp add: produto_def upt_rec)
  ultimately show ?thesis
    using strassen_produto[OF a] strassen_produto[OF a(1) w] a by simp
qed

end
